theory Spec2Isabelle
  imports Complex_Main
begin

section \<open>Numbers\<close>

text \<open>
  A JavaScript number is an IEEE 754 double: every arithmetic operation returns the exact
  result rounded to 53 significant bits, to nearest and ties to even, and a store into a
  \<open>Float32Array\<close> rounds to 24 bits. Values are kept as reals and each operation is
  followed by its rounding. Overflow to an infinity is not represented: a result beyond
  the largest double stays a (huge) finite number.
\<close>

definition pow2 :: "int \<Rightarrow> real" where
  \<comment> \<open>\<open>2\<close> to an integer power\<close>
  "pow2 k = (if 0 \<le> k then 2 ^ nat k else 1 / 2 ^ nat (- k))"

function expo_up :: "real \<Rightarrow> nat" where
  \<comment> \<open>for \<open>1 \<le> x\<close>: how often \<open>x\<close> is halved until it is below 2\<close>
  "expo_up x = (if x < 2 then 0 else Suc (expo_up (x / 2)))"
  by pat_completeness auto
termination
proof (relation "measure (\<lambda>x. nat \<lfloor>x\<rfloor>)")
  show "wf (measure (\<lambda>x::real. nat \<lfloor>x\<rfloor>))" by simp
next
  fix x :: real
  assume "\<not> x < 2"
  then have x: "2 \<le> x" by simp
  have "x / 2 \<le> x - 1" using x by simp
  then have "\<lfloor>x / 2\<rfloor> \<le> \<lfloor>x - 1\<rfloor>" by (rule floor_mono)
  then have a: "\<lfloor>x / 2\<rfloor> \<le> \<lfloor>x\<rfloor> - 1" by simp
  have "2 \<le> \<lfloor>x\<rfloor>" using x by (simp add: le_floor_iff)
  with a show "(x / 2, x) \<in> measure (\<lambda>x. nat \<lfloor>x\<rfloor>)" by simp
qed

function expo_down :: "real \<Rightarrow> nat" where
  \<comment> \<open>for \<open>0 < x < 1\<close>: how often \<open>x\<close> is doubled until it reaches 1\<close>
  "expo_down x = (if x \<le> 0 \<or> 1 \<le> x then 0 else Suc (expo_down (2 * x)))"
  by pat_completeness auto
termination
proof (relation "measure (\<lambda>x. nat \<lceil>1 / x\<rceil>)")
  show "wf (measure (\<lambda>x::real. nat \<lceil>1 / x\<rceil>))" by simp
next
  fix x :: real
  assume "\<not> (x \<le> 0 \<or> 1 \<le> x)"
  then have x: "0 < x" "x < 1" by simp_all
  have y: "1 < 1 / x" using x by simp
  then have c: "2 \<le> \<lceil>1 / x\<rceil>" by (simp add: le_ceiling_iff) 
  have "1 / x \<le> of_int \<lceil>1 / x\<rceil>" by (rule le_of_int_ceiling)
  then have "1 / (2 * x) \<le> of_int \<lceil>1 / x\<rceil> / 2" by simp
  also have "\<dots> \<le> of_int (\<lceil>1 / x\<rceil> - 1)" using c by simp
  finally have "\<lceil>1 / (2 * x)\<rceil> \<le> \<lceil>1 / x\<rceil> - 1" by (simp only: ceiling_le_iff)
  with c x show "(2 * x, x) \<in> measure (\<lambda>x. nat \<lceil>1 / x\<rceil>)" by simp
qed

declare expo_up.simps [simp del] expo_down.simps [simp del]

definition expo :: "real \<Rightarrow> int" where
  \<comment> \<open>the binary exponent of a positive number: \<open>2 ^ e \<le> x < 2 ^ (e + 1)\<close>\<close>
  "expo x = (if 1 \<le> x then int (expo_up x) else - int (expo_down x))"

definition rne :: "real \<Rightarrow> int" where
  \<comment> \<open>the nearest integer, a tie going to the even one\<close>
  "rne x = (let f = \<lfloor>x\<rfloor>; d = x - of_int f
            in if d < 1 / 2 then f else if 1 / 2 < d then f + 1
               else if even f then f else f + 1)"

definition fl :: "nat \<Rightarrow> int \<Rightarrow> real \<Rightarrow> real" where
  \<comment> \<open>rounding to \<open>p\<close> significant bits, with the spacing fixed below \<open>2 ^ emin\<close>
      (subnormal numbers)\<close>
  "fl p emin x =
     (if x = 0 then 0
      else let u = pow2 (max (expo \<bar>x\<bar>) emin - (int p - 1))
           in of_int (rne (x / u)) * u)"

definition to_double :: "real \<Rightarrow> real" where
  \<comment> \<open>the result of an arithmetic operation on numbers\<close>
  "to_double = fl 53 (- 1022)"

definition fround :: "real \<Rightarrow> real" where
  \<comment> \<open>a number stored into a \<open>Float32Array\<close>\<close>
  "fround = fl 24 (- 126)"

section \<open>Samples and typed arrays\<close>

text \<open>
  A \<open>Float32Array\<close> is a list of samples. \<open>NaN\<close> is kept as a value of its own because
  a read outside an array yields \<open>undefined\<close>, which arithmetic turns into \<open>NaN\<close>;
  infinite samples are not represented.
\<close>

datatype sample = Num real | NaN

fun smul :: "sample \<Rightarrow> real \<Rightarrow> sample" where
  "smul (Num a) t = Num (to_double (a * t))"
| "smul NaN t = NaN"

fun sadd :: "sample \<Rightarrow> sample \<Rightarrow> sample" where
  "sadd (Num a) (Num b) = Num (to_double (a + b))"
| "sadd _ _ = NaN"

fun store :: "sample \<Rightarrow> sample" where
  \<comment> \<open>\<open>out[i] = v\<close> on a \<open>Float32Array\<close>\<close>
  "store (Num a) = Num (fround a)"
| "store NaN = NaN"

definition sample_at :: "sample list \<Rightarrow> int \<Rightarrow> sample" where
  \<comment> \<open>\<open>input[k]\<close> used as a number: an index outside the array reads \<open>undefined\<close>.\<close>
  "sample_at xs k = (if 0 \<le> k \<and> k < int (length xs) then xs ! nat k else NaN)"

definition TARGET_SR :: real where
  "TARGET_SR = 16000"

definition CHUNK_MS :: real where
  "CHUNK_MS = 500"

definition concatFloat32 :: "sample list \<Rightarrow> sample list \<Rightarrow> sample list" where
  \<comment> \<open>a fresh array of length \<open>a.length + b.length\<close>, \<open>a\<close> copied at 0 and \<open>b\<close> at \<open>a.length\<close>\<close>
  "concatFloat32 a b = a @ b"

datatype js_error = RangeError

definition interpolate :: "sample list \<Rightarrow> real \<Rightarrow> nat \<Rightarrow> sample" where
  \<comment> \<open>the body of the loop of \<open>resampleLinear\<close>: the value stored at \<open>out[i]\<close>\<close>
  "interpolate input ratio i =
     (let x = to_double (real i / ratio);
          x0 = \<lfloor>x\<rfloor>;
          x1 = min (x0 + 1) (int (length input) - 1);
          t = to_double (x - of_int x0)
      in store (sadd (smul (sample_at input x0) (to_double (1 - t)))
                     (smul (sample_at input x1) t)))"

definition resampleLinear :: "sample list \<Rightarrow> real \<Rightarrow> real \<Rightarrow> js_error + sample list" where
  \<comment> \<open>With \<open>srcSr = 0\<close> the ratio is an infinity: \<open>new Float32Array(Infinity)\<close> throws,
      while \<open>-Infinity\<close> and \<open>NaN\<close> (empty input) give an array of length 0. The
      constructor also throws when the array would need more than \<open>2 ^ 53 - 1\<close> bytes, which
      covers a ratio or a product that overflows; running out of memory below that size
      is not represented.\<close>
  "resampleLinear input srcSr dstSr =
     (if srcSr = dstSr then Inr input
      else if srcSr = 0 then
        (if 0 < dstSr \<and> input \<noteq> [] then Inl RangeError else Inr [])
      else
        let ratio = to_double (dstSr / srcSr);
            outLen = max 0 (round (to_double (real (length input) * ratio)))
        in if 2 ^ 53 - 1 < 4 * outLen then Inl RangeError
           else Inr (map (interpolate input ratio) [0..<nat outLen]))"

section \<open>The segment buffer\<close>

definition popChunk :: "nat \<Rightarrow> sample list \<Rightarrow> (sample list \<times> sample list) option" where
  \<comment> \<open>the drain loop's guard \<open>buffer.length >= chunkSamples\<close> with its two slices:
      \<open>slice(0, n)\<close> is the chunk, \<open>slice(n)\<close> the buffer that remains\<close>
  "popChunk n buf = (if n \<le> length buf then Some (take n buf, drop n buf) else None)"

datatype buf_op = Append "sample list" | PopChunk

fun run_ops :: "nat \<Rightarrow> buf_op list \<Rightarrow> sample list \<Rightarrow> sample list list \<Rightarrow> sample list \<times> sample list list" where
  \<comment> \<open>a sequence of appends and extraction attempts; the chunks extracted are collected in order\<close>
  "run_ops n [] buf out = (buf, out)"
| "run_ops n (Append xs # ops) buf out = run_ops n ops (concatFloat32 buf xs) out"
| "run_ops n (PopChunk # ops) buf out =
     (case popChunk n buf of
        None \<Rightarrow> run_ops n ops buf out
      | Some (chunk, rest) \<Rightarrow> run_ops n ops rest (out @ [chunk]))"

fun appended :: "buf_op list \<Rightarrow> sample list" where
  "appended [] = []"
| "appended (Append xs # ops) = xs @ appended ops"
| "appended (PopChunk # ops) = appended ops"

section \<open>The recording session\<close>

text \<open>
  The component's state: the React state variables and the mutable refs of \<open>App\<close>,
  together with what the event loop holds for it. \<open>tasks\<close> are the async calls
  suspended at an \<open>await\<close> on the network or the audio device, \<open>calls\<close> is the log of
  requests issued to the transcription service, and \<open>handlers\<close> are the script
  processors whose \<open>onaudioprocess\<close> is installed, each with the sample rate of its
  audio context. State setters take effect at once: the component re-renders between
  two events.
\<close>

datatype status = Idle | Recording | Error

datatype reply = Reply (reply_language: "string option") (reply_text: "string option")

datatype call = ApiStart | ApiPushChunk string "sample list" | ApiFinish string

datatype task =
    PumpAwaitPush
  | StartAwaitSession
  | StartAwaitMedia
  | StartAwaitClose
  | StopAwaitClose
  | StopAwaitFinish

datatype outcome = SessionId string | Media real | Json reply | Closed | Rejected string

record app =
  isRecording :: bool
  transcript :: string
  language :: string
  status :: status
  errorMsg :: string
  sessionIdRef :: "string option"
  audioContextRef :: bool
  processorRef :: "nat option"
  sourceRef :: bool
  mediaStreamRef :: bool
  bufferRef :: "sample list"
  pushingRef :: bool
  recordingRef :: bool
  handlers :: "(nat \<times> real) list"
  created :: nat
  tasks :: "task list"
  calls :: "call list"

definition init :: app where
  "init = \<lparr> isRecording = False, transcript = [], language = [], status = Idle,
            errorMsg = [], sessionIdRef = None, audioContextRef = False,
            processorRef = None, sourceRef = False, mediaStreamRef = False,
            bufferRef = [], pushingRef = False, recordingRef = False,
            handlers = [], created = 0, tasks = [], calls = [] \<rparr>"

definition chunkSamples :: nat where
  "chunkSamples = nat (round (TARGET_SR * (CHUNK_MS / 1000)))"

definition or_empty :: "string option \<Rightarrow> string" where
  \<comment> \<open>\<open>j.field || ''\<close>\<close>
  "or_empty v = (case v of None \<Rightarrow> [] | Some t \<Rightarrow> t)"

lemma chunkSamples_eq: "chunkSamples = 8000"
  by (simp add: chunkSamples_def TARGET_SR_def CHUNK_MS_def)

lemma popChunk_shorter: "popChunk chunkSamples buf = Some (chunk, rest) \<Longrightarrow> length rest < length buf"
  by (auto simp: popChunk_def chunkSamples_eq split: if_splits)

function drain :: "app \<Rightarrow> app" where
  \<comment> \<open>the \<open>while\<close> loop of \<open>pump\<close> up to its next \<open>await\<close>, or through \<open>finally\<close> when it exits;
      an empty session id is falsy like \<open>null\<close>\<close>
  "drain s =
     (if recordingRef s then
        (case popChunk chunkSamples (bufferRef s) of
           None \<Rightarrow> s\<lparr>pushingRef := False\<rparr>
         | Some (chunk, rest) \<Rightarrow>
             (case sessionIdRef s of
                None \<Rightarrow> drain (s\<lparr>bufferRef := rest\<rparr>)
              | Some sid \<Rightarrow>
                  if sid = [] then drain (s\<lparr>bufferRef := rest\<rparr>)
                  else s\<lparr>bufferRef := rest,
                         calls := calls s @ [ApiPushChunk sid chunk],
                         tasks := tasks s @ [PumpAwaitPush]\<rparr>))
      else s\<lparr>pushingRef := False\<rparr>)"
  by pat_completeness auto
termination
  by (relation "measure (\<lambda>s. length (bufferRef s))") (auto dest: popChunk_shorter)

declare drain.simps [simp del]

definition pump :: "app \<Rightarrow> app" where
  "pump s = (if pushingRef s then s else drain (s\<lparr>pushingRef := True\<rparr>))"

fun pump_resume :: "outcome \<Rightarrow> app \<Rightarrow> app option" where
  \<comment> \<open>\<open>pump\<close> continuing after \<open>await apiPushChunk\<close>: the reply is merged and the loop goes
      on; a failure goes through \<open>catch\<close> and \<open>finally\<close>\<close>
  "pump_resume (Json j) s =
     Some (drain (s\<lparr>language := or_empty (reply_language j),
                     transcript := or_empty (reply_text j)\<rparr>))"
| "pump_resume (Rejected err) s =
     Some (s\<lparr>errorMsg := ''Backend error: '' @ err, status := Error, pushingRef := False\<rparr>)"
| "pump_resume _ s = None"

definition onaudioprocess :: "real \<Rightarrow> sample list \<Rightarrow> app \<Rightarrow> app" where
  \<comment> \<open>an exception of the resampler leaves the callback before the buffer is touched\<close>
  "onaudioprocess rate input s =
     (if \<not> recordingRef s then s
      else case resampleLinear input rate TARGET_SR of
             Inl e \<Rightarrow> s
           | Inr resampled \<Rightarrow>
               let s1 = s\<lparr>bufferRef := concatFloat32 (bufferRef s) resampled\<rparr>
               in if \<not> pushingRef s1 then pump s1 else s1)"

definition stopAudioPipeline_begin :: "app \<Rightarrow> app" where
  \<comment> \<open>up to \<open>await audioContextRef.current.close()\<close>: the processor is disconnected and its
      handler removed\<close>
  "stopAudioPipeline_begin s =
     (case processorRef s of
        None \<Rightarrow> s
      | Some p \<Rightarrow> s\<lparr>handlers := filter (\<lambda>h. fst h \<noteq> p) (handlers s)\<rparr>)"

definition stopAudioPipeline_end :: "app \<Rightarrow> app" where
  "stopAudioPipeline_end s =
     s\<lparr>processorRef := None, sourceRef := False, audioContextRef := False,
       mediaStreamRef := False\<rparr>"

definition handleStart :: "app \<Rightarrow> app" where
  \<comment> \<open>up to \<open>await apiStart()\<close>\<close>
  "handleStart s =
     (if isRecording s then s
      else s\<lparr>transcript := [], language := [], errorMsg := [], bufferRef := [],
             status := Recording, isRecording := True, recordingRef := True,
             calls := calls s @ [ApiStart], tasks := tasks s @ [StartAwaitSession]\<rparr>)"

definition start_failed :: "string \<Rightarrow> app \<Rightarrow> app" where
  \<comment> \<open>the \<open>catch\<close> block of \<open>handleStart\<close>\<close>
  "start_failed err s =
     (let s1 = stopAudioPipeline_begin
                 (s\<lparr>errorMsg := ''Start failed: '' @ err, status := Error,
                    isRecording := False, recordingRef := False, sessionIdRef := None\<rparr>)
      in if audioContextRef s1 then s1\<lparr>tasks := tasks s1 @ [StartAwaitClose]\<rparr>
         else stopAudioPipeline_end s1)"

fun start_resume_session :: "outcome \<Rightarrow> app \<Rightarrow> app option" where
  "start_resume_session (SessionId sid) s =
     Some (s\<lparr>sessionIdRef := Some sid, tasks := tasks s @ [StartAwaitMedia]\<rparr>)"
| "start_resume_session (Rejected err) s = Some (start_failed err s)"
| "start_resume_session _ s = None"

fun start_resume_media :: "outcome \<Rightarrow> app \<Rightarrow> app option" where
  \<comment> \<open>the stream is acquired; context, source and processor are created and connected\<close>
  "start_resume_media (Media rate) s =
     Some (s\<lparr>mediaStreamRef := True, audioContextRef := True, sourceRef := True,
             processorRef := Some (created s),
             handlers := handlers s @ [(created s, rate)],
             created := Suc (created s)\<rparr>)"
| "start_resume_media (Rejected err) s = Some (start_failed err s)"
| "start_resume_media _ s = None"

definition stop_finally :: "app \<Rightarrow> app" where
  "stop_finally s = s\<lparr>sessionIdRef := None, bufferRef := [], pushingRef := False\<rparr>"

definition stop_finish :: "app \<Rightarrow> app" where
  \<comment> \<open>\<open>handleStop\<close> after the teardown, up to \<open>await apiFinish\<close>\<close>
  "stop_finish s =
     (case sessionIdRef s of
        None \<Rightarrow> stop_finally (s\<lparr>status := Idle\<rparr>)
      | Some sid \<Rightarrow>
          if sid = [] then stop_finally (s\<lparr>status := Idle\<rparr>)
          else s\<lparr>calls := calls s @ [ApiFinish sid], tasks := tasks s @ [StopAwaitFinish]\<rparr>)"

fun stop_resume_finish :: "outcome \<Rightarrow> app \<Rightarrow> app option" where
  "stop_resume_finish (Json j) s =
     Some (stop_finally (s\<lparr>language := or_empty (reply_language j),
                            transcript := or_empty (reply_text j), status := Idle\<rparr>))"
| "stop_resume_finish (Rejected err) s =
     Some (stop_finally (s\<lparr>errorMsg := ''Finish failed: '' @ err, status := Error\<rparr>))"
| "stop_resume_finish _ s = None"

definition handleStop :: "app \<Rightarrow> app" where
  "handleStop s =
     (if \<not> isRecording s then s
      else let s1 = stopAudioPipeline_begin (s\<lparr>recordingRef := False, isRecording := False\<rparr>)
           in if audioContextRef s1 then s1\<lparr>tasks := tasks s1 @ [StopAwaitClose]\<rparr>
              else stop_finish (stopAudioPipeline_end s1))"

section \<open>Events\<close>

datatype event = ClickStart | ClickStop | Audio nat "sample list" | Settle nat outcome

fun closing :: "outcome \<Rightarrow> bool" where
  \<comment> \<open>\<open>close()\<close> settles either way; a rejection is caught inside \<open>stopAudioPipeline\<close>\<close>
  "closing Closed = True"
| "closing (Rejected err) = True"
| "closing _ = False"

fun resume :: "task \<Rightarrow> outcome \<Rightarrow> app \<Rightarrow> app option" where
  "resume PumpAwaitPush out s = pump_resume out s"
| "resume StartAwaitSession out s = start_resume_session out s"
| "resume StartAwaitMedia out s = start_resume_media out s"
| "resume StartAwaitClose out s = (if closing out then Some (stopAudioPipeline_end s) else None)"
| "resume StopAwaitClose out s =
     (if closing out then Some (stop_finish (stopAudioPipeline_end s)) else None)"
| "resume StopAwaitFinish out s = stop_resume_finish out s"

fun step :: "event \<Rightarrow> app \<Rightarrow> app option" where
  \<comment> \<open>\<open>None\<close>: the event cannot occur in this state\<close>
  "step ClickStart s = Some (handleStart s)"
| "step ClickStop s = Some (handleStop s)"
| "step (Audio p input) s =
     (case map_of (handlers s) p of
        None \<Rightarrow> None
      | Some rate \<Rightarrow> Some (onaudioprocess rate input s))"
| "step (Settle i out) s =
     (if i < length (tasks s)
      then resume (tasks s ! i) out (s\<lparr>tasks := take i (tasks s) @ drop (Suc i) (tasks s)\<rparr>)
      else None)"

fun run :: "event list \<Rightarrow> app \<Rightarrow> app option" where
  "run [] s = Some s"
| "run (e # es) s = (case step e s of None \<Rightarrow> None | Some s' \<Rightarrow> run es s')"

definition inflight :: "app \<Rightarrow> nat" where
  \<comment> \<open>the \<open>pushChunk\<close> requests that have not settled yet\<close>
  "inflight s = length (filter (\<lambda>t. t = PumpAwaitPush) (tasks s))"

fun is_push :: "call \<Rightarrow> bool" where
  "is_push (ApiPushChunk sid chunk) = True"
| "is_push _ = False"

fun is_finish :: "call \<Rightarrow> bool" where
  "is_finish (ApiFinish sid) = True"
| "is_finish _ = False"

section \<open>Sample executions\<close>

text \<open>
  The script processor is created with a buffer of 4096 samples; \<open>block\<close> is one such
  buffer of silence. At a context rate of 16000 Hz the resampler is the identity, and two
  blocks hold 8192 samples, one chunk of 8000 and 192 more. \<open>busy\<close> is the state after a
  session has started and the first chunk has been sent and not answered yet; \<open>backlog\<close>
  is the state two blocks later, with a second full chunk waiting in the buffer.
\<close>

definition block :: "sample list" where
  "block = replicate 4096 (Num 0)"

definition busy_trace :: "event list" where
  "busy_trace = [ClickStart, Settle 0 (SessionId ''s1''), Settle 0 (Media 16000),
                 Audio 0 block, Audio 0 block]"

definition busy :: app where
  "busy = \<lparr> isRecording = True, transcript = [], language = [], status = Recording,
            errorMsg = [], sessionIdRef = Some ''s1'', audioContextRef = True,
            processorRef = Some 0, sourceRef = True, mediaStreamRef = True,
            bufferRef = replicate 192 (Num 0), pushingRef = True, recordingRef = True,
            handlers = [(0, 16000)], created = 1, tasks = [PumpAwaitPush],
            calls = [ApiStart, ApiPushChunk ''s1'' (replicate 8000 (Num 0))] \<rparr>"

definition backlog :: app where
  "backlog = busy\<lparr>bufferRef := replicate 8384 (Num 0)\<rparr>"

definition stop_trace :: "event list" where
  "stop_trace = [ClickStop, Settle 0 (Json (Reply None (Some ''hi''))), Settle 0 Closed,
                 Settle 0 (Json (Reply None (Some ''done'')))]"

definition finished :: app where
  "finished = \<lparr> isRecording = False, transcript = ''done'', language = [], status = Idle,
            errorMsg = [], sessionIdRef = None, audioContextRef = False,
            processorRef = None, sourceRef = False, mediaStreamRef = False,
            bufferRef = [], pushingRef = False, recordingRef = False,
            handlers = [], created = 1, tasks = [],
            calls = [ApiStart, ApiPushChunk ''s1'' (replicate 8000 (Num 0)), ApiFinish ''s1''] \<rparr>"

definition restart_trace :: "event list" where
  "restart_trace = [ClickStop, Settle 1 Closed, Settle 1 (Json (Reply None (Some ''done''))),
                    ClickStart, Settle 1 (SessionId ''s2''), Settle 1 (Media 16000),
                    Audio 1 block, Audio 1 block]"

definition overlapped :: app where
  "overlapped = \<lparr> isRecording = True, transcript = [], language = [], status = Recording,
            errorMsg = [], sessionIdRef = Some ''s2'', audioContextRef = True,
            processorRef = Some 1, sourceRef = True, mediaStreamRef = True,
            bufferRef = replicate 192 (Num 0), pushingRef = True, recordingRef = True,
            handlers = [(1, 16000)], created = 2, tasks = [PumpAwaitPush, PumpAwaitPush],
            calls = [ApiStart, ApiPushChunk ''s1'' (replicate 8000 (Num 0)), ApiFinish ''s1'',
                     ApiStart, ApiPushChunk ''s2'' (replicate 8000 (Num 0))] \<rparr>"

definition failed :: app where
  "failed = busy\<lparr>errorMsg := ''Backend error: 500'', status := Error, pushingRef := False,
                 tasks := []\<rparr>"

definition resumed :: app where
  "resumed = failed\<lparr>bufferRef := replicate 384 (Num 0), pushingRef := True,
                    tasks := [PumpAwaitPush],
                    calls := [ApiStart, ApiPushChunk ''s1'' (replicate 8000 (Num 0)),
                              ApiPushChunk ''s1'' (replicate 8000 (Num 0))]\<rparr>"

definition orphan_trace :: "event list" where
  \<comment> \<open>stop arrives while start still waits for the microphone; the handler is installed
      afterwards and outlives the session\<close>
  "orphan_trace = [ClickStart, Settle 0 (SessionId ''s1''), ClickStop, Settle 0 (Media 16000),
                   Settle 0 (Json (Reply None None)), ClickStart, Audio 0 block, Audio 0 block]"

definition orphaned :: app where
  "orphaned = \<lparr> isRecording = True, transcript = [], language = [], status = Recording,
            errorMsg = [], sessionIdRef = None, audioContextRef = True,
            processorRef = Some 0, sourceRef = True, mediaStreamRef = True,
            bufferRef = replicate 192 (Num 0), pushingRef = False, recordingRef = True,
            handlers = [(0, 16000)], created = 1, tasks = [StartAwaitSession],
            calls = [ApiStart, ApiFinish ''s1'', ApiStart] \<rparr>"

definition stopping :: app where
  \<comment> \<open>\<open>backlog\<close> after stop and after the reply to the request in flight: stop waits for
      \<open>close()\<close>\<close>
  "stopping = backlog\<lparr>isRecording := False, transcript := ''hi'', pushingRef := False,
                        recordingRef := False, handlers := [], tasks := [StopAwaitClose]\<rparr>"

definition midstart_trace :: "event list" where
  \<comment> \<open>stop is pressed while start still waits for the session id\<close>
  "midstart_trace = [ClickStart, ClickStop, Settle 0 (SessionId ''s1''), Settle 0 (Media 44100)]"

definition midstart :: app where
  "midstart = \<lparr> isRecording = False, transcript = [], language = [], status = Idle,
            errorMsg = [], sessionIdRef = Some ''s1'', audioContextRef = True,
            processorRef = Some 0, sourceRef = True, mediaStreamRef = True,
            bufferRef = [], pushingRef = False, recordingRef = False,
            handlers = [(0, 44100)], created = 1, tasks = [], calls = [ApiStart] \<rparr>"

definition single_flight :: "app \<Rightarrow> bool" where
  \<comment> \<open>at most one request of a pump is outstanding, the flag is set while it is, and no
      stop is under way\<close>
  "single_flight s \<longleftrightarrow>
     inflight s \<le> 1 \<and> (0 < inflight s \<longrightarrow> pushingRef s)
     \<and> StopAwaitClose \<notin> set (tasks s) \<and> StopAwaitFinish \<notin> set (tasks s)"

section \<open>The drain loop\<close>

lemma drain_stopped: "\<not> recordingRef s \<Longrightarrow> drain s = s\<lparr>pushingRef := False\<rparr>"
  by (subst drain.simps) simp

lemma drain_short:
  "length (bufferRef s) < chunkSamples \<Longrightarrow> drain s = s\<lparr>pushingRef := False\<rparr>"
  by (subst drain.simps) (simp add: popChunk_def)

lemma drain_send:
  "recordingRef s \<Longrightarrow> chunkSamples \<le> length (bufferRef s) \<Longrightarrow> sessionIdRef s = Some sid \<Longrightarrow>
   sid \<noteq> [] \<Longrightarrow>
   drain s = s\<lparr>bufferRef := drop chunkSamples (bufferRef s),
                 calls := calls s @ [ApiPushChunk sid (take chunkSamples (bufferRef s))],
                 tasks := tasks s @ [PumpAwaitPush]\<rparr>"
  by (subst drain.simps) (simp add: popChunk_def)

lemma drain_discard:
  "recordingRef s \<Longrightarrow> chunkSamples \<le> length (bufferRef s) \<Longrightarrow>
   sessionIdRef s = None \<or> sessionIdRef s = Some [] \<Longrightarrow>
   drain s = drain (s\<lparr>bufferRef := drop chunkSamples (bufferRef s)\<rparr>)"
  by (subst drain.simps) (auto simp add: popChunk_def)

lemma drain_outcome:
  "(\<exists>sid chunk. tasks (drain s) = tasks s @ [PumpAwaitPush]
        \<and> calls (drain s) = calls s @ [ApiPushChunk sid chunk]
        \<and> pushingRef (drain s) = pushingRef s)
   \<or> (tasks (drain s) = tasks s \<and> calls (drain s) = calls s \<and> \<not> pushingRef (drain s))"
proof (induction s rule: drain.induct)
  case (1 s)
  show ?case
  proof (cases "recordingRef s \<and> chunkSamples \<le> length (bufferRef s)")
    case False
    then have "drain s = s\<lparr>pushingRef := False\<rparr>"
      using drain_stopped [of s] drain_short [of s] by auto
    then show ?thesis by simp
  next
    case True
    then have pc: "popChunk chunkSamples (bufferRef s)
                   = Some (take chunkSamples (bufferRef s), drop chunkSamples (bufferRef s))"
      by (simp add: popChunk_def)
    show ?thesis
    proof (cases "sessionIdRef s = None \<or> sessionIdRef s = Some []")
      case False
      then obtain sid where "sessionIdRef s = Some sid" "sid \<noteq> []" by auto
      with True show ?thesis by (simp add: drain_send)
    next
      case d: True
      let ?s1 = "s\<lparr>bufferRef := drop chunkSamples (bufferRef s)\<rparr>"
      have eq: "drain s = drain ?s1" using True d by (simp add: drain_discard)
      have ih: "(\<exists>sid chunk. tasks (drain ?s1) = tasks ?s1 @ [PumpAwaitPush]
        \<and> calls (drain ?s1) = calls ?s1 @ [ApiPushChunk sid chunk]
        \<and> pushingRef (drain ?s1) = pushingRef ?s1)
   \<or> (tasks (drain ?s1) = tasks ?s1 \<and> calls (drain ?s1) = calls ?s1 \<and> \<not> pushingRef (drain ?s1))"
        using d
      proof
        assume n: "sessionIdRef s = None"
        show ?thesis using "1.IH"(1) [OF _ pc refl n] True by simp
      next
        assume e: "sessionIdRef s = Some []"
        show ?thesis using "1.IH"(2) [OF _ pc refl e] True by simp
      qed
      show ?thesis using ih by (simp add: eq)
    qed
  qed
qed

lemma drain_shape:
  "\<exists>k. drain s = s\<lparr>bufferRef := drop k (bufferRef s), pushingRef := False\<rparr>
     \<or> (\<exists>sid chunk. drain s = s\<lparr>bufferRef := drop k (bufferRef s),
                                   calls := calls s @ [ApiPushChunk sid chunk],
                                   tasks := tasks s @ [PumpAwaitPush]\<rparr>)"
proof (induction s rule: drain.induct)
  case (1 s)
  show ?case
  proof (cases "recordingRef s \<and> chunkSamples \<le> length (bufferRef s)")
    case False
    then have "drain s = s\<lparr>pushingRef := False\<rparr>"
      using drain_stopped [of s] drain_short [of s] by auto
    then have "drain s = s\<lparr>bufferRef := drop 0 (bufferRef s), pushingRef := False\<rparr>"
      by simp
    then show ?thesis by blast
  next
    case True
    then have pc: "popChunk chunkSamples (bufferRef s)
                   = Some (take chunkSamples (bufferRef s), drop chunkSamples (bufferRef s))"
      by (simp add: popChunk_def)
    show ?thesis
    proof (cases "sessionIdRef s = None \<or> sessionIdRef s = Some []")
      case False
      then obtain sid where "sessionIdRef s = Some sid" "sid \<noteq> []" by auto
      with True have "drain s = s\<lparr>bufferRef := drop chunkSamples (bufferRef s),
                 calls := calls s @ [ApiPushChunk sid (take chunkSamples (bufferRef s))],
                 tasks := tasks s @ [PumpAwaitPush]\<rparr>"
        by (simp add: drain_send)
      then show ?thesis by blast
    next
      case d: True
      let ?s1 = "s\<lparr>bufferRef := drop chunkSamples (bufferRef s)\<rparr>"
      have eq: "drain s = drain ?s1" using True d by (simp add: drain_discard)
      have ih: "\<exists>k. drain ?s1 = ?s1\<lparr>bufferRef := drop k (bufferRef ?s1), pushingRef := False\<rparr>
     \<or> (\<exists>sid chunk. drain ?s1 = ?s1\<lparr>bufferRef := drop k (bufferRef ?s1),
                                   calls := calls ?s1 @ [ApiPushChunk sid chunk],
                                   tasks := tasks ?s1 @ [PumpAwaitPush]\<rparr>)"
        using d
      proof
        assume n: "sessionIdRef s = None"
        show ?thesis using "1.IH"(1) [OF _ pc refl n] True by simp
      next
        assume e: "sessionIdRef s = Some []"
        show ?thesis using "1.IH"(2) [OF _ pc refl e] True by simp
      qed
      then obtain k where
        "drain ?s1 = ?s1\<lparr>bufferRef := drop k (bufferRef ?s1), pushingRef := False\<rparr>
     \<or> (\<exists>sid chunk. drain ?s1 = ?s1\<lparr>bufferRef := drop k (bufferRef ?s1),
                                   calls := calls ?s1 @ [ApiPushChunk sid chunk],
                                   tasks := tasks ?s1 @ [PumpAwaitPush]\<rparr>)" ..
      then have "drain s = s\<lparr>bufferRef := drop (chunkSamples + k) (bufferRef s), pushingRef := False\<rparr>
     \<or> (\<exists>sid chunk. drain s = s\<lparr>bufferRef := drop (chunkSamples + k) (bufferRef s),
                                   calls := calls s @ [ApiPushChunk sid chunk],
                                   tasks := tasks s @ [PumpAwaitPush]\<rparr>)"
        by (simp add: eq add.commute)
      then show ?thesis by blast
    qed
  qed
qed



lemma drain_buffer: "\<exists>k. bufferRef (drain s) = drop k (bufferRef s)"
proof -
  from drain_shape [of s] obtain k where
    d: "drain s = s\<lparr>bufferRef := drop k (bufferRef s), pushingRef := False\<rparr>
     \<or> (\<exists>sid chunk. drain s = s\<lparr>bufferRef := drop k (bufferRef s),
                                   calls := calls s @ [ApiPushChunk sid chunk],
                                   tasks := tasks s @ [PumpAwaitPush]\<rparr>)" ..
  then have "bufferRef (drain s) = drop k (bufferRef s)" by (elim disjE exE) simp_all
  then show ?thesis ..
qed
lemma drain_no_session:
  "sessionIdRef s = None \<or> sessionIdRef s = Some [] \<Longrightarrow> recordingRef s \<Longrightarrow>
   drain s = s\<lparr>bufferRef := drop (length (bufferRef s) div chunkSamples * chunkSamples) (bufferRef s),
                 pushingRef := False\<rparr>"
proof (induction s rule: drain.induct)
  case (1 s)
  show ?case
  proof (cases "chunkSamples \<le> length (bufferRef s)")
    case False
    then have "length (bufferRef s) div chunkSamples = 0" by simp
    with False show ?thesis by (simp add: drain_short)
  next
    case True
    then have pc: "popChunk chunkSamples (bufferRef s)
                   = Some (take chunkSamples (bufferRef s), drop chunkSamples (bufferRef s))"
      by (simp add: popChunk_def)
    let ?s1 = "s\<lparr>bufferRef := drop chunkSamples (bufferRef s)\<rparr>"
    have eq: "drain s = drain ?s1" using True "1.prems" by (simp add: drain_discard)
    have ih: "drain ?s1 = ?s1\<lparr>bufferRef := drop (length (bufferRef ?s1) div chunkSamples * chunkSamples) (bufferRef ?s1),
                 pushingRef := False\<rparr>"
      using "1.prems"(1)
    proof
      assume n: "sessionIdRef s = None"
      show ?thesis using "1.IH"(1) [OF "1.prems"(2) pc refl n] "1.prems" by simp
    next
      assume e: "sessionIdRef s = Some []"
      show ?thesis using "1.IH"(2) [OF "1.prems"(2) pc refl e] "1.prems" by simp
    qed
    have pos: "0 < chunkSamples" by (simp add: chunkSamples_eq)
    have "length (bufferRef s) div chunkSamples = Suc ((length (bufferRef s) - chunkSamples) div chunkSamples)"
      using le_div_geq [OF pos True] .
    then have "(length (bufferRef s) - chunkSamples) div chunkSamples * chunkSamples + chunkSamples
               = length (bufferRef s) div chunkSamples * chunkSamples"
      by simp
    then show ?thesis using ih by (simp add: eq)
  qed
qed




lemma drain_frame_conj:
  "recordingRef (drain s) = recordingRef s \<and> isRecording (drain s) = isRecording s
   \<and> sessionIdRef (drain s) = sessionIdRef s \<and> handlers (drain s) = handlers s
   \<and> processorRef (drain s) = processorRef s \<and> audioContextRef (drain s) = audioContextRef s
   \<and> status (drain s) = status s \<and> transcript (drain s) = transcript s
   \<and> language (drain s) = language s \<and> errorMsg (drain s) = errorMsg s
   \<and> created (drain s) = created s"
proof -
  from drain_shape [of s] obtain k where
    d: "drain s = s\<lparr>bufferRef := drop k (bufferRef s), pushingRef := False\<rparr>
     \<or> (\<exists>sid chunk. drain s = s\<lparr>bufferRef := drop k (bufferRef s),
                                   calls := calls s @ [ApiPushChunk sid chunk],
                                   tasks := tasks s @ [PumpAwaitPush]\<rparr>)" ..
  then show ?thesis
  proof
    assume a: "drain s = s\<lparr>bufferRef := drop k (bufferRef s), pushingRef := False\<rparr>"
    show ?thesis by (simp add: a)
  next
    assume "\<exists>sid chunk. drain s = s\<lparr>bufferRef := drop k (bufferRef s),
                                   calls := calls s @ [ApiPushChunk sid chunk],
                                   tasks := tasks s @ [PumpAwaitPush]\<rparr>"
    then obtain sid chunk where b: "drain s = s\<lparr>bufferRef := drop k (bufferRef s),
                                   calls := calls s @ [ApiPushChunk sid chunk],
                                   tasks := tasks s @ [PumpAwaitPush]\<rparr>" by blast
    show ?thesis by (simp add: b)
  qed
qed

lemma drain_frame:
  shows "recordingRef (drain s) = recordingRef s"
    and "isRecording (drain s) = isRecording s"
    and "sessionIdRef (drain s) = sessionIdRef s"
    and "handlers (drain s) = handlers s"
    and "processorRef (drain s) = processorRef s"
    and "audioContextRef (drain s) = audioContextRef s"
    and "status (drain s) = status s"
    and "transcript (drain s) = transcript s"
    and "language (drain s) = language s"
    and "errorMsg (drain s) = errorMsg s"
    and "created (drain s) = created s"
  using drain_frame_conj [of s] by blast+

section \<open>Buffer conservation\<close>

lemma run_ops_conserve:
  "run_ops n ops buf out = (buf', out') \<Longrightarrow>
     concat out' @ buf' = concat out @ buf @ appended ops"
proof (induction ops arbitrary: buf out)
  case Nil
  then show ?case by simp
next
  case (Cons op ops)
  show ?case
  proof (cases op)
    case (Append xs)
    with Cons.prems have "run_ops n ops (buf @ xs) out = (buf', out')"
      by (simp add: concatFloat32_def)
    from Cons.IH [OF this] show ?thesis
      by (simp add: Append)
  next
    case PopChunk
    show ?thesis
    proof (cases "n \<le> length buf")
      case True
      with Cons.prems PopChunk
      have "run_ops n ops (drop n buf) (out @ [take n buf]) = (buf', out')"
        by (simp add: popChunk_def)
      from Cons.IH [OF this] show ?thesis
        by (simp add: PopChunk)
    next
      case False
      with Cons.prems PopChunk have "run_ops n ops buf out = (buf', out')"
        by (simp add: popChunk_def)
      from Cons.IH [OF this] show ?thesis
        by (simp add: PopChunk)
    qed
  qed
qed

lemma run_ops_chunk_length:
  "run_ops n ops buf out = (buf', out') \<Longrightarrow> \<forall>c \<in> set out. length c = n \<Longrightarrow>
     \<forall>c \<in> set out'. length c = n"
proof (induction ops arbitrary: buf out)
  case Nil
  then show ?case by simp
next
  case (Cons op ops)
  show ?case
  proof (cases op)
    case (Append xs)
    with Cons.prems have "run_ops n ops (buf @ xs) out = (buf', out')"
      by (simp add: concatFloat32_def)
    from Cons.IH [OF this Cons.prems(2)] show ?thesis .
  next
    case PopChunk
    show ?thesis
    proof (cases "n \<le> length buf")
      case True
      with Cons.prems PopChunk
      have r: "run_ops n ops (drop n buf) (out @ [take n buf]) = (buf', out')"
        by (simp add: popChunk_def)
      have "\<forall>c \<in> set (out @ [take n buf]). length c = n"
        using Cons.prems(2) True by simp
      from Cons.IH [OF r this] show ?thesis .
    next
      case False
      with Cons.prems PopChunk have "run_ops n ops buf out = (buf', out')"
        by (simp add: popChunk_def)
      from Cons.IH [OF this Cons.prems(2)] show ?thesis .
    qed
  qed
qed

lemma length_concat_uniform: "\<forall>c \<in> set cs. length c = n \<Longrightarrow> length (concat cs) = length cs * n"
  by (induction cs) simp_all

text \<open>
  C4. Starting from the empty buffer, after any interleaving of appends (\<open>T\<close> samples in
  total) and extraction attempts of which \<open>M\<close> succeed, the buffer holds \<open>T - M * C\<close>
  samples and \<open>M * C \<le> T\<close>; every chunk has exactly \<open>C\<close> samples and the chunks followed by
  the remaining buffer are the appended samples in order (first in, first out). An
  attempt on fewer than \<open>C\<close> samples extracts nothing and leaves the buffer as it is; one
  on at least \<open>C\<close> samples takes the first \<open>C\<close>.
\<close>

theorem buffer_conservation:
  assumes "run_ops C ops [] [] = (buf, chunks)"
  shows "length buf = length (appended ops) - length chunks * C
       \<and> length chunks * C \<le> length (appended ops)
       \<and> (\<forall>c \<in> set chunks. length c = C)
       \<and> concat chunks @ buf = appended ops
       \<and> (\<forall>b. length b < C \<longrightarrow> popChunk C b = None \<and> run_ops C [PopChunk] b [] = (b, []))
       \<and> (\<forall>b. C \<le> length b \<longrightarrow>
             popChunk C b = Some (take C b, drop C b) \<and> length (take C b) = C
             \<and> length (drop C b) = length b - C)"
proof -
  have cons: "concat chunks @ buf = appended ops"
    using run_ops_conserve [OF assms] by simp
  have len: "\<forall>c \<in> set chunks. length c = C"
    using run_ops_chunk_length [OF assms] by simp
  have "length (concat chunks @ buf) = length (appended ops)"
    by (simp only: cons)
  then have "length (concat chunks) + length buf = length (appended ops)"
    by (simp only: length_append)
  then have total: "length chunks * C + length buf = length (appended ops)"
    by (simp only: length_concat_uniform [OF len])
  have a: "length buf = length (appended ops) - length chunks * C"
    using total by arith
  have b: "length chunks * C \<le> length (appended ops)"
    using total by arith
  have short: "\<forall>b. length b < C \<longrightarrow> popChunk C b = None \<and> run_ops C [PopChunk] b [] = (b, [])"
    by (simp add: popChunk_def)
  have full: "\<forall>b. C \<le> length b \<longrightarrow>
             popChunk C b = Some (take C b, drop C b) \<and> length (take C b) = C
             \<and> length (drop C b) = length b - C"
    by (simp add: popChunk_def)
  from a b len cons short full show ?thesis by blast
qed

theorem buffer_conservation_witness:
  "run_ops 2 [Append [Num 1, Num 2, Num 3], PopChunk, PopChunk, Append [Num 4], PopChunk] [] []
     = ([], [[Num 1, Num 2], [Num 3, Num 4]])
   \<and> length ([] :: sample list) = length (appended [Append [Num 1, Num 2, Num 3], PopChunk, PopChunk, Append [Num 4], PopChunk]) - length [[Num 1, Num 2], [Num 3, Num 4]] * 2
   \<and> popChunk 2 [Num 3] = None"
proof -
  have r: "run_ops 2 [Append [Num 1, Num 2, Num 3], PopChunk, PopChunk, Append [Num 4], PopChunk] [] []
     = ([], [[Num 1, Num 2], [Num 3, Num 4]])"
    by (simp add: popChunk_def concatFloat32_def)
  show ?thesis using r buffer_conservation [OF r] by simp
qed

section \<open>The resampler\<close>

lemma expo_up_bounds: "1 \<le> x \<Longrightarrow> 2 ^ expo_up x \<le> x \<and> x < 2 * 2 ^ expo_up x"
proof (induction x rule: expo_up.induct)
  case (1 x)
  show ?case
  proof (cases "x < 2")
    case True
    then have "expo_up x = 0" by (simp add: expo_up.simps)
    with True "1.prems" show ?thesis by simp
  next
    case False
    then have e: "expo_up x = Suc (expo_up (x / 2))" by (subst expo_up.simps) simp
    have "1 \<le> x / 2" using False by simp
    from "1.IH" [OF False this] show ?thesis by (simp add: e)
  qed
qed

lemma expo_down_bounds:
  "0 < x \<Longrightarrow> x < 1 \<Longrightarrow> 1 \<le> x * 2 ^ expo_down x \<and> x * 2 ^ expo_down x < 2"
proof (induction x rule: expo_down.induct)
  case (1 x)
  have e: "expo_down x = Suc (expo_down (2 * x))"
    using "1.prems" by (subst expo_down.simps) simp
  have n: "\<not> (x \<le> 0 \<or> 1 \<le> x)" using "1.prems" by simp
  show ?case
  proof (cases "2 * x < 1")
    case True
    have "0 < 2 * x" using "1.prems" by simp
    from "1.IH" [OF n this True] show ?thesis by (simp add: e mult.assoc)
  next
    case False
    then have "expo_down (2 * x) = 0" by (subst expo_down.simps) simp
    with False "1.prems" show ?thesis by (simp add: e)
  qed
qed

lemma expo_bounds:
  assumes "0 < x"
  shows "pow2 (expo x) \<le> x \<and> x < 2 * pow2 (expo x)"
proof (cases "1 \<le> x")
  case True
  with expo_up_bounds [OF True] show ?thesis by (simp add: expo_def pow2_def)
next
  case False
  then have x1: "x < 1" by simp
  note b = expo_down_bounds [OF assms x1]
  let ?k = "expo_down x"
  have p: "(0::real) < 2 ^ ?k" by simp
  show ?thesis
  proof (cases "?k = 0")
    case True
    with b x1 show ?thesis by simp
  next
    case k: False
    then have pw: "pow2 (expo x) = 1 / 2 ^ ?k" using False by (simp add: expo_def pow2_def)
    have "1 / 2 ^ ?k \<le> x" using b p by (simp add: field_simps)
    moreover have "x < 2 * (1 / 2 ^ ?k)" using b p by (simp add: field_simps)
    ultimately show ?thesis by (simp add: pw)
  qed
qed

lemma pow2_pos: "0 < pow2 k"
  by (simp add: pow2_def)

lemma pow2_powr: "pow2 k = 2 powr (of_int k)"
  by (simp add: pow2_def powr_real_of_int inverse_eq_divide)

lemma pow2_less_cancel: "pow2 a < pow2 b \<Longrightarrow> a < b"
  by (simp add: pow2_powr)

lemma pow2_diff: "pow2 (a - int n) = pow2 a / 2 ^ n"
proof -
  have "pow2 (a - int n) = 2 powr (of_int a - real n)" by (simp add: pow2_powr)
  also have "\<dots> = 2 powr (of_int a) / 2 powr (real n)" by (rule powr_diff)
  also have "\<dots> = pow2 a / 2 ^ n" by (simp add: pow2_powr powr_realpow)
  finally show ?thesis .
qed

lemma rne_error: "\<bar>of_int (rne x) - x\<bar> \<le> 1 / 2"
proof -
  have a: "of_int \<lfloor>x\<rfloor> \<le> x" and b: "x < of_int \<lfloor>x\<rfloor> + 1" by linarith+
  show ?thesis using a b by (auto simp: rne_def Let_def)
qed

lemma rne_ge_floor: "\<lfloor>x\<rfloor> \<le> rne x"
  by (simp add: rne_def Let_def)

lemma fl_zero: "fl p emin 0 = 0"
  by (simp add: fl_def)

lemma fl_normal:
  assumes "pow2 emin \<le> x" and "0 < p"
  shows "\<bar>fl p emin x - x\<bar> \<le> x / 2 ^ p" and "pow2 emin \<le> fl p emin x"
proof -
  have x: "0 < x" using assms(1) pow2_pos [of emin] by linarith
  note b = expo_bounds [OF x]
  define e where "e = expo x"
  have "pow2 emin < pow2 (e + 1)"
  proof -
    have "pow2 (e + 1) = 2 * pow2 e" by (simp add: pow2_powr powr_add)
    with b assms(1) show ?thesis by (simp add: e_def)
  qed
  then have "emin < e + 1" by (rule pow2_less_cancel)
  then have le: "emin \<le> e" by simp
  define u where "u = pow2 (e - (int p - 1))"
  have "int p - 1 = int (p - 1)" using assms(2) by (simp add: of_nat_diff)
  then have "u = pow2 (e - int (p - 1))" by (simp only: u_def)
  then have u: "u = pow2 e / 2 ^ (p - 1)" by (simp only: pow2_diff)
  have up: "0 < u" unfolding u_def by (rule pow2_pos)
  have "max (expo \<bar>x\<bar>) emin = e" using x le by (simp add: e_def max_def)
  then have f: "fl p emin x = of_int (rne (x / u)) * u"
    using x by (simp add: fl_def Let_def u_def)
  have pe: "pow2 e \<le> x" using b by (simp add: e_def)
  have two: "(2::real) ^ p = 2 * 2 ^ (p - 1)" using assms(2) by (cases p) simp_all
  define m where "m = x / u"
  have xm: "x = m * u" using up by (simp add: m_def)
  have f': "fl p emin x = of_int (rne m) * u" by (simp only: f m_def)
  have "fl p emin x - x = of_int (rne m) * u - x" by (simp only: f')
  also have "\<dots> = of_int (rne m) * u - m * u" using xm by simp
  also have "\<dots> = (of_int (rne m) - m) * u" by (simp add: algebra_simps)
  finally have "fl p emin x - x = (of_int (rne m) - m) * u" .
  then have "\<bar>fl p emin x - x\<bar> = \<bar>of_int (rne m) - m\<bar> * u"
    using up by (simp add: abs_mult)
  also have "\<dots> \<le> (1 / 2) * u"
    using rne_error [of m] up by (intro mult_right_mono) simp_all
  also have "\<dots> = pow2 e / 2 ^ p" by (simp add: u two)
  also have "\<dots> \<le> x / 2 ^ p" using pe by (simp add: divide_right_mono)
  finally show "\<bar>fl p emin x - x\<bar> \<le> x / 2 ^ p" .
  have "u * 2 ^ (p - 1) = pow2 e" by (simp add: u)
  then have "u * 2 ^ (p - 1) \<le> m * u" using pe xm by simp
  then have "(2::real) ^ (p - 1) \<le> m" using up by simp
  then have "of_int (2 ^ (p - 1)) \<le> m" by simp
  then have "(2::int) ^ (p - 1) \<le> \<lfloor>m\<rfloor>" by (simp only: le_floor_iff)
  then have "(2::int) ^ (p - 1) \<le> rne m" using rne_ge_floor [of m] by linarith
  then have "of_int (2 ^ (p - 1)) \<le> (of_int (rne m) :: real)" by (simp only: of_int_le_iff)
  then have "(2::real) ^ (p - 1) \<le> of_int (rne m)" by simp
  then have "2 ^ (p - 1) * u \<le> of_int (rne m) * u"
    using up by (simp add: mult_right_mono)
  then have "pow2 e \<le> fl p emin x" by (simp add: f' u)
  moreover have "pow2 emin \<le> pow2 e" using le by (simp add: pow2_powr)
  ultimately show "pow2 emin \<le> fl p emin x" by linarith
qed

lemma to_double_normal:
  assumes "1 / 2 ^ 1022 \<le> x"
  shows "\<bar>to_double x - x\<bar> \<le> x / 2 ^ 53" and "1 / 2 ^ 1022 \<le> to_double x"
proof -
  have p: "pow2 (- 1022) = 1 / 2 ^ 1022" by (simp add: pow2_def)
  have a: "pow2 (- 1022) \<le> x" using assms by (simp only: p)
  show "\<bar>to_double x - x\<bar> \<le> x / 2 ^ 53"
    unfolding to_double_def by (rule fl_normal(1) [OF a]) simp
  have "pow2 (- 1022) \<le> fl 53 (- 1022) x" by (rule fl_normal(2) [OF a]) simp
  then show "1 / 2 ^ 1022 \<le> to_double x" by (simp only: p to_double_def)
qed

lemma product_error:
  assumes "0 < r" and "r \<le> 2 ^ 1024" and "0 < n"
  defines "q \<equiv> real n * TARGET_SR / r"
  defines "b \<equiv> to_double (real n * to_double (TARGET_SR / r))"
  shows "\<bar>b - q\<bar> \<le> q / 2 ^ 51" and "0 < b"
proof -
  define q0 where "q0 = TARGET_SR / r"
  define a where "a = to_double q0"
  have q0: "1 / 2 ^ 1022 \<le> q0"
  proof -
    have "r \<le> 4 * 2 ^ 1022" using assms(2) by simp
    moreover have "(0::real) < 2 ^ 1022" by simp
    ultimately have "r \<le> 16000 * 2 ^ 1022" by linarith
    then show ?thesis using assms(1) by (simp add: q0_def TARGET_SR_def field_simps)
  qed
  have q0p: "0 < q0" using assms(1) by (simp add: q0_def TARGET_SR_def)
  note ea = to_double_normal [OF q0, folded a_def]
  have n1: "1 \<le> real n" using assms(3) by simp
  have tiny: "(0::real) < 1 / 2 ^ 1022" by simp
  have ap: "0 < a" using ea(2) tiny by linarith
  have pl: "1 / 2 ^ 1022 \<le> real n * a"
  proof -
    have "a \<le> real n * a" using n1 ap by simp
    with ea(2) show ?thesis by linarith
  qed
  note eb = to_double_normal [OF pl]
  have b: "b = to_double (real n * a)" by (simp add: b_def a_def q0_def)
  have q: "q = real n * q0" by (simp add: q_def q0_def)
  have qp: "0 < q" using q0p assms(3) by (simp add: q)
  have e1: "\<bar>real n * a - q\<bar> \<le> q / 2 ^ 53"
  proof -
    have "\<bar>real n * a - q\<bar> = real n * \<bar>a - q0\<bar>"
      by (simp add: q abs_mult right_diff_distrib [symmetric])
    also have "\<dots> \<le> real n * (q0 / 2 ^ 53)" using ea(1) by (intro mult_left_mono) simp_all
    finally show ?thesis by (simp add: q)
  qed
  then have up: "real n * a \<le> q + q / 2 ^ 53" by linarith
  have e2: "\<bar>b - real n * a\<bar> \<le> (q + q / 2 ^ 53) / 2 ^ 53"
  proof -
    have "\<bar>b - real n * a\<bar> \<le> real n * a / 2 ^ 53" using eb(1) by (simp only: b)
    also have "\<dots> \<le> (q + q / 2 ^ 53) / 2 ^ 53" by (rule divide_right_mono [OF up]) simp
    finally show ?thesis .
  qed
  have "\<bar>b - q\<bar> \<le> \<bar>b - real n * a\<bar> + \<bar>real n * a - q\<bar>" by linarith
  also have "\<dots> \<le> (q + q / 2 ^ 53) / 2 ^ 53 + q / 2 ^ 53" using e1 e2 by linarith
  also have "\<dots> \<le> q / 2 ^ 51" using qp by (simp add: field_simps)
  finally show "\<bar>b - q\<bar> \<le> q / 2 ^ 51" .
  have "1 / 2 ^ 1022 \<le> b" using eb(2) by (simp only: b)
  then show "0 < b" using tiny by linarith
qed

lemma round_near:
  assumes "\<bar>b - q\<bar> \<le> e" and "e < frac (q + 1 / 2)" and "frac (q + 1 / 2) < 1 - e"
  shows "round b = round q"
proof -
  define k where "k = \<lfloor>q + 1 / 2\<rfloor>"
  have f: "q + 1 / 2 = of_int k + frac (q + 1 / 2)" by (simp add: frac_def k_def)
  have lo: "of_int k \<le> b + 1 / 2" using assms(1,2) f by linarith
  have hi: "b + 1 / 2 < of_int k + 1" using assms(1,3) f by linarith
  have "\<lfloor>b + 1 / 2\<rfloor> = k" using lo hi by (rule floor_unique)
  then show ?thesis by (simp add: round_def k_def)
qed

lemma rne_of_int: "rne (of_int j) = j"
  by (simp add: rne_def Let_def)

lemma to_double_nat:
  assumes "real n < 2 ^ 53"
  shows "to_double (real n) = real n"
proof (cases "n = 0")
  case True
  then show ?thesis by (simp add: to_double_def fl_zero)
next
  case False
  define x where "x = real n"
  have x1: "1 \<le> x" using False by (simp add: x_def)
  then have x0: "0 < x" by simp
  define e where "e = expo x"
  note b = expo_bounds [OF x0, folded e_def]
  have e0: "0 \<le> e" using x1 by (simp add: e_def expo_def)
  have "pow2 e < pow2 53" using b assms by (simp add: x_def pow2_def)
  then have "e < 53" by (rule pow2_less_cancel)
  then have e52: "e \<le> 52" by simp
  define k where "k = nat (52 - e)"
  have u: "pow2 (e - 52) = 1 / 2 ^ k"
  proof (cases "e = 52")
    case True
    then show ?thesis by (simp add: pow2_def k_def)
  next
    case False
    with e52 have "e - 52 < 0" by simp
    then show ?thesis by (simp add: pow2_def k_def)
  qed
  have m: "max (expo \<bar>x\<bar>) (- 1022) = e" using x0 e0 by (simp add: e_def)
  have "x / pow2 (e - 52) = of_int (int n * 2 ^ k)" by (simp add: u x_def)
  then have r: "rne (x / pow2 (e - 52)) = int n * 2 ^ k" by (simp only: rne_of_int)
  have "fl 53 (- 1022) x = of_int (rne (x / pow2 (max (expo \<bar>x\<bar>) (- 1022) - (int 53 - 1)))) * pow2 (max (expo \<bar>x\<bar>) (- 1022) - (int 53 - 1))"
    using x0 by (simp add: fl_def Let_def)
  also have "\<dots> = of_int (rne (x / pow2 (e - 52))) * pow2 (e - 52)" by (simp only: m) simp
  also have "\<dots> = of_int (int n * 2 ^ k) * pow2 (e - 52)" by (simp only: r)
  also have "\<dots> = of_int (int n * 2 ^ k) * (1 / 2 ^ k)" by (simp only: u)
  also have "\<dots> = x" by (simp add: x_def)
  finally show ?thesis by (simp add: to_double_def x_def)
qed

lemma to_double_one: "to_double 1 = 1"
  using to_double_nat [of 1] by simp

text \<open>
  C5, as the code has it. For a positive source rate \<open>r\<close> (a finite double) and an input
  of \<open>n\<close> samples whose ideal output length \<open>q = n * 16000 / r\<close> is at most \<open>2 ^ 50\<close>,
  resampling to the 16000 Hz target returns normally. The ratio \<open>16000 / r\<close> and its
  product with \<open>n\<close> are each rounded to a double, and the output length is \<open>Math.round\<close>
  of that product. It differs from \<open>q\<close> by at most \<open>1 / 2 + q / 2 ^ 51\<close>, and it is
  \<open>round q\<close> whenever \<open>q + 1 / 2\<close> is farther than \<open>q / 2 ^ 51\<close> from every integer
  (\<open>Math.round\<close> and \<^const>\<open>round\<close> both round a half upwards). The empty input gives the
  empty output.
\<close>

theorem resampleLinear_length:
  assumes "0 < r" and "r \<le> 2 ^ 1024"
    and "real (length input) * TARGET_SR / r \<le> 2 ^ 50"
  shows "(\<exists>out. resampleLinear input r TARGET_SR = Inr out
              \<and> int (length out)
                  = round (to_double (real (length input) * to_double (TARGET_SR / r)))
              \<and> \<bar>real (length out) - real (length input) * TARGET_SR / r\<bar>
                  \<le> 1 / 2 + real (length input) * TARGET_SR / r / 2 ^ 51
              \<and> (real (length input) * TARGET_SR / r / 2 ^ 51
                    < frac (real (length input) * TARGET_SR / r + 1 / 2)
                  \<and> frac (real (length input) * TARGET_SR / r + 1 / 2)
                    < 1 - real (length input) * TARGET_SR / r / 2 ^ 51
                  \<longrightarrow> int (length out) = round (real (length input) * TARGET_SR / r)))
       \<and> resampleLinear [] r TARGET_SR = Inr []"
proof -
  define n where "n = length input"
  define q where "q = real n * TARGET_SR / r"
  have empty: "resampleLinear [] r TARGET_SR = Inr []"
    using assms(1) by (simp add: resampleLinear_def to_double_def fl_zero Let_def)
  have main: "\<exists>out. resampleLinear input r TARGET_SR = Inr out
              \<and> int (length out) = round (to_double (real n * to_double (TARGET_SR / r)))
              \<and> \<bar>real (length out) - q\<bar> \<le> 1 / 2 + q / 2 ^ 51
              \<and> (q / 2 ^ 51 < frac (q + 1 / 2) \<and> frac (q + 1 / 2) < 1 - q / 2 ^ 51
                  \<longrightarrow> int (length out) = round q)"
  proof (cases "r = TARGET_SR")
    case True
    then have r: "resampleLinear input r TARGET_SR = Inr input"
      by (simp add: resampleLinear_def)
    have qn: "q = real n" using True by (simp add: q_def TARGET_SR_def)
    have "real n \<le> 2 ^ 50" using assms(3) qn by (simp add: q_def n_def)
    then have "real n < 2 ^ 53" by simp
    then have "to_double (real n) = real n" by (rule to_double_nat)
    moreover have "to_double (TARGET_SR / r) = 1" using True by (simp add: to_double_one TARGET_SR_def)
    ultimately have "round (to_double (real n * to_double (TARGET_SR / r))) = int n" by simp
    then show ?thesis using r qn by (simp add: n_def)
  next
    case ne: False
    show ?thesis
    proof (cases "input = []")
      case True
      then have "q = 0" and "n = 0" by (simp_all add: q_def n_def)
      with True empty show ?thesis by (simp add: to_double_def fl_zero)
    next
      case False
      then have np: "0 < n" by (simp add: n_def)
      define b where "b = to_double (real n * to_double (TARGET_SR / r))"
      note pe = product_error [OF assms(1) assms(2) np, folded q_def b_def]
      have qb: "q \<le> 2 ^ 50" using assms(3) by (simp add: q_def n_def)
      have qp: "0 \<le> q" using assms(1) by (simp add: q_def TARGET_SR_def)
      have rb: "\<bar>of_int (round b) - b\<bar> \<le> 1 / 2" by (rule of_int_round_abs_le)
      have r0: "0 \<le> round b" using pe(2) by (simp add: round_def)
      have "q / 2 ^ 51 \<le> 2 ^ 50 / 2 ^ 51" using qb by (simp add: divide_right_mono)
      then have small: "q / 2 ^ 51 \<le> 1 / 2" by simp
      have "real_of_int (round b) \<le> 2 ^ 50 + 1" using rb pe(1) qb small by linarith
      then have "real_of_int (round b) \<le> real_of_int (2 ^ 50 + 1)" by simp
      then have "round b \<le> 2 ^ 50 + 1" by (simp only: of_int_le_iff)
      then have fit: "\<not> 2 ^ 53 - 1 < 4 * max 0 (round b)" using r0 by simp
      define out where "out = map (interpolate input (to_double (TARGET_SR / r))) [0..<nat (round b)]"
      have res: "resampleLinear input r TARGET_SR = Inr out"
        using ne assms(1) fit r0
        by (simp add: resampleLinear_def Let_def out_def b_def n_def max_def)
      have len: "int (length out) = round b" using r0 by (simp add: out_def)
      have "real_of_int (int (length out)) = real (length out)" by simp
      then have lenr: "real (length out) = of_int (round b)" by (simp only: len)
      have bound: "\<bar>real (length out) - q\<bar> \<le> 1 / 2 + q / 2 ^ 51"
        using rb pe(1) unfolding lenr by linarith
      have near: "q / 2 ^ 51 < frac (q + 1 / 2) \<and> frac (q + 1 / 2) < 1 - q / 2 ^ 51
                  \<longrightarrow> int (length out) = round q"
        using round_near [OF pe(1)] len by simp
      have exact: "int (length out) = round (to_double (real n * to_double (TARGET_SR / r)))"
        using len by (simp only: b_def)
      from res exact bound near show ?thesis by blast
    qed
  qed
  from main empty show ?thesis by (simp only: q_def n_def)
qed

theorem resampleLinear_length_witness:
  "(0::real) < 48000 \<and> (48000::real) \<le> 2 ^ 1024
   \<and> real (length [Num 1, Num 2, Num 3, Num 4]) * TARGET_SR / 48000 \<le> 2 ^ 50
   \<and> (\<exists>out. resampleLinear [Num 1, Num 2, Num 3, Num 4] 48000 TARGET_SR = Inr out
           \<and> int (length out) = 1)"
proof -
  have h1: "(0::real) < 48000" by simp
  have h2: "(48000::real) \<le> 2 ^ 1024" by simp
  have h3: "real (length [Num 1, Num 2, Num 3, Num 4]) * TARGET_SR / 48000 \<le> 2 ^ 50"
    by (simp add: TARGET_SR_def)
  have q: "real (length [Num 1, Num 2, Num 3, Num 4]) * TARGET_SR / 48000 = 4 / 3"
    by (simp add: TARGET_SR_def)
  have p1: "4 / 3 / 2 ^ 51 < frac (4 / 3 + 1 / 2 :: real)" by (simp add: frac_def)
  have p2: "frac (4 / 3 + 1 / 2 :: real) < 1 - 4 / 3 / 2 ^ 51" by (simp add: frac_def)
  have rq: "round (4 / 3 :: real) = 1" by (simp add: round_def)
  from resampleLinear_length [OF h1 h2 h3]
  obtain out where o: "resampleLinear [Num 1, Num 2, Num 3, Num 4] 48000 TARGET_SR = Inr out"
    and i: "4 / 3 / 2 ^ 51 < frac (4 / 3 + 1 / 2 :: real)
            \<and> frac (4 / 3 + 1 / 2 :: real) < 1 - 4 / 3 / 2 ^ 51
            \<longrightarrow> int (length out) = round (4 / 3 :: real)"
    unfolding q by blast
  from i p1 p2 have "int (length out) = round (4 / 3 :: real)" by blast
  then have "int (length out) = 1" by (simp only: rq)
  with o h1 h2 h3 show ?thesis by blast
qed


text \<open>
  Against C5 as it is written: for 19 samples at 4864 Hz the ideal length is 62.5, which
  rounds to 63. The double nearest to \<open>16000 / 4864\<close> lies below it, its product with 19 is
  rounded to the double just below 62.5, and the resampler returns 62 samples.
\<close>

theorem resampleLinear_length_counterexample:
  "map_sum id length (resampleLinear (replicate 19 (Num 0)) 4864 TARGET_SR) = Inr 62
   \<and> round (real (length (replicate 19 (Num 0))) * TARGET_SR / 4864) = (63::int)"
proof -
  have a: "to_double (TARGET_SR / 4864) = 7407236229227789 / 2251799813685248"
    by (simp add: TARGET_SR_def to_double_def fl_def pow2_def expo_def expo_up.simps rne_def
        Let_def)
  have b: "to_double (140737488355327991 / 2251799813685248)
           = 8796093022207999 / 140737488355328"
    by (simp add: to_double_def fl_def pow2_def expo_def expo_up.simps rne_def Let_def)
  have c: "round (8796093022207999 / 140737488355328 :: real) = 62"
    by (simp add: round_def)
  have "resampleLinear (replicate 19 (Num 0)) 4864 TARGET_SR
        = Inr (map (interpolate (replicate 19 (Num 0)) (7407236229227789 / 2251799813685248))
                 [0..<62])"
    by (simp add: resampleLinear_def Let_def a b c) (simp add: TARGET_SR_def)
  moreover have "round (real (length (replicate 19 (Num 0))) * TARGET_SR / 4864) = (63::int)"
    by (simp add: TARGET_SR_def round_def)
  ultimately show ?thesis by simp
qed

text \<open>
  C6. When source and destination rate are equal the resampler returns its input
  unchanged.
\<close>

theorem resampleLinear_identity:
  "srcSr = dstSr \<Longrightarrow> resampleLinear input srcSr dstSr = Inr input"
  by (simp add: resampleLinear_def)

theorem resampleLinear_identity_witness:
  "(16000::real) = 16000 \<and> resampleLinear [Num 1, NaN] 16000 16000 = Inr [Num 1, NaN]"
  using resampleLinear_identity [of 16000 16000 "[Num 1, NaN]"] by simp

section \<open>Evaluating executions\<close>

lemma replicate_append_same: "replicate m x @ replicate n x = replicate (m + n) x"
  by (simp add: replicate_add)

lemmas eval_simps =
  handleStart_def handleStop_def onaudioprocess_def pump_def resampleLinear_def
  concatFloat32_def TARGET_SR_def chunkSamples_eq block_def stopAudioPipeline_begin_def
  stopAudioPipeline_end_def stop_finish_def stop_finally_def start_failed_def or_empty_def
  replicate_append_same drain_send drain_short drain_stopped Let_def

lemma run_append:
  "run (xs @ ys) s = (case run xs s of None \<Rightarrow> None | Some s' \<Rightarrow> run ys s')"
  by (induction xs arbitrary: s) (simp_all split: option.split)

lemma run_busy: "run busy_trace init = Some busy"
  by (simp add: busy_trace_def init_def busy_def eval_simps)

lemma run_backlog: "run (busy_trace @ [Audio 0 block, Audio 0 block]) init = Some backlog"
  by (simp add: run_append run_busy) (simp add: busy_def backlog_def eval_simps)

lemma run_finished: "run stop_trace backlog = Some finished"
  by (simp add: stop_trace_def busy_def backlog_def finished_def eval_simps)

lemma run_orphaned: "run orphan_trace init = Some orphaned"
  by (simp add: orphan_trace_def init_def orphaned_def eval_simps drain_no_session)

section \<open>Requests to finish\<close>

lemma set_remove_nth: "set (take i ts @ drop (Suc i) ts) \<subseteq> set ts"
  using set_take_subset [of i ts] set_drop_subset [of "Suc i" ts] by auto

lemma drain_finishes: "filter is_finish (calls (drain s)) = filter is_finish (calls s)"
  using drain_outcome [of s] by auto

lemma drain_tasks_close:
  "StopAwaitClose \<in> set (tasks (drain s)) \<longleftrightarrow> StopAwaitClose \<in> set (tasks s)"
  using drain_outcome [of s] by auto

lemma onaudioprocess_finishes:
  "filter is_finish (calls (onaudioprocess rate input s)) = filter is_finish (calls s)
   \<and> (StopAwaitClose \<in> set (tasks (onaudioprocess rate input s))
        \<longleftrightarrow> StopAwaitClose \<in> set (tasks s))"
  by (simp add: onaudioprocess_def pump_def drain_finishes drain_tasks_close Let_def
      split: sum.split)

lemma handleStart_finishes:
  "filter is_finish (calls (handleStart s)) = filter is_finish (calls s)
   \<and> (StopAwaitClose \<in> set (tasks (handleStart s)) \<longleftrightarrow> StopAwaitClose \<in> set (tasks s))"
  by (simp add: handleStart_def)

lemma start_failed_finishes:
  "calls (start_failed err s) = calls s
   \<and> (StopAwaitClose \<in> set (tasks (start_failed err s)) \<longleftrightarrow> StopAwaitClose \<in> set (tasks s))"
  by (simp add: start_failed_def stopAudioPipeline_begin_def stopAudioPipeline_end_def
      Let_def split: option.split)

lemma stop_finish_refs:
  "processorRef (stop_finish (stopAudioPipeline_end s)) = None
   \<and> \<not> audioContextRef (stop_finish (stopAudioPipeline_end s))
   \<and> \<not> sourceRef (stop_finish (stopAudioPipeline_end s))
   \<and> \<not> mediaStreamRef (stop_finish (stopAudioPipeline_end s))
   \<and> StopAwaitClose \<notin> set (tasks (stop_finish (stopAudioPipeline_end s))) - set (tasks s)"
  by (simp add: stop_finish_def stop_finally_def stopAudioPipeline_end_def split: option.split)

lemma resume_finishes:
  assumes "resume t out s = Some s'" and "t \<noteq> StopAwaitClose"
  shows "filter is_finish (calls s') = filter is_finish (calls s)
       \<and> (StopAwaitClose \<in> set (tasks s') \<longrightarrow> StopAwaitClose \<in> set (tasks s))"
proof (cases t)
  case PumpAwaitPush
  with assms show ?thesis
    by (cases out) (auto simp: drain_finishes drain_tasks_close)
next
  case StartAwaitSession
  with assms show ?thesis
    by (cases out) (auto simp: start_failed_finishes)
next
  case StartAwaitMedia
  with assms show ?thesis
    by (cases out) (auto simp: start_failed_finishes)
next
  case StartAwaitClose
  with assms show ?thesis
    by (auto simp: stopAudioPipeline_end_def split: if_splits)
next
  case StopAwaitClose
  with assms show ?thesis by simp
next
  case StopAwaitFinish
  with assms show ?thesis
    by (cases out) (auto simp: stop_finally_def)
qed

lemma step_finish:
  assumes "step e s = Some s'"
    and "filter is_finish (calls s') \<noteq> filter is_finish (calls s)"
  shows "processorRef s' = None \<and> \<not> audioContextRef s' \<and> \<not> sourceRef s'
       \<and> \<not> mediaStreamRef s'
       \<and> (e = ClickStop \<and> isRecording s \<and> \<not> audioContextRef s
          \<or> (\<exists>i c. e = Settle i c \<and> closing c \<and> i < length (tasks s)
                    \<and> tasks s ! i = StopAwaitClose))"
proof (cases e)
  case ClickStart
  with assms(1) have "s' = handleStart s" by simp
  with assms(2) show ?thesis using handleStart_finishes [of s] by simp
next
  case ClickStop
  with assms have s': "s' = handleStop s" by simp
  show ?thesis
  proof (cases "isRecording s \<and> \<not> audioContextRef (stopAudioPipeline_begin (s\<lparr>recordingRef := False, isRecording := False\<rparr>))")
    case True
    then have "s' = stop_finish (stopAudioPipeline_end (stopAudioPipeline_begin (s\<lparr>recordingRef := False, isRecording := False\<rparr>)))"
      by (simp add: s' handleStop_def Let_def)
    moreover have "\<not> audioContextRef s"
      using True by (simp add: stopAudioPipeline_begin_def split: option.splits)
    ultimately show ?thesis
      using stop_finish_refs [of "stopAudioPipeline_begin (s\<lparr>recordingRef := False, isRecording := False\<rparr>)"]
        True ClickStop by simp
  next
    case False
    then have "filter is_finish (calls s') = filter is_finish (calls s)"
      by (auto simp: s' handleStop_def Let_def stopAudioPipeline_begin_def split: option.splits)
    with assms(2) show ?thesis by simp
  qed
next
  case (Audio p input)
  with assms(1) obtain rate where "s' = onaudioprocess rate input s"
    by (auto split: option.splits)
  with assms(2) show ?thesis using onaudioprocess_finishes [of rate input s] by simp
next
  case (Settle i out)
  let ?s0 = "s\<lparr>tasks := take i (tasks s) @ drop (Suc i) (tasks s)\<rparr>"
  from Settle assms(1) have i: "i < length (tasks s)"
    and r: "resume (tasks s ! i) out ?s0 = Some s'"
    by (simp_all split: if_splits)
  show ?thesis
  proof (cases "tasks s ! i = StopAwaitClose")
    case True
    with r have c: "closing out" and s': "s' = stop_finish (stopAudioPipeline_end ?s0)"
      by (simp_all split: if_splits)
    show ?thesis
      using stop_finish_refs [of ?s0] c i True Settle by (simp add: s')
  next
    case False
    from resume_finishes [OF r False] assms(2) show ?thesis by simp
  qed
qed

lemma step_no_finish:
  assumes "step e s = Some s'" and "e \<noteq> ClickStop" and "StopAwaitClose \<notin> set (tasks s)"
  shows "filter is_finish (calls s') = filter is_finish (calls s)
       \<and> StopAwaitClose \<notin> set (tasks s')"
proof (cases e)
  case ClickStart
  with assms(1) have "s' = handleStart s" by simp
  with assms(3) show ?thesis using handleStart_finishes [of s] by simp
next
  case ClickStop
  with assms show ?thesis by simp
next
  case (Audio p input)
  with assms(1) obtain rate where "s' = onaudioprocess rate input s"
    by (auto split: option.splits)
  with assms(3) show ?thesis using onaudioprocess_finishes [of rate input s] by simp
next
  case (Settle i out)
  let ?s0 = "s\<lparr>tasks := take i (tasks s) @ drop (Suc i) (tasks s)\<rparr>"
  from Settle assms(1) have i: "i < length (tasks s)"
    and r: "resume (tasks s ! i) out ?s0 = Some s'"
    by (simp_all split: if_splits)
  have "tasks s ! i \<in> set (tasks s)" using i by simp
  with assms(3) have ne: "tasks s ! i \<noteq> StopAwaitClose" by auto
  have sub: "set (tasks ?s0) \<subseteq> set (tasks s)" using set_remove_nth [of i "tasks s"] by simp
  from resume_finishes [OF r ne] sub assms(3) show ?thesis by auto
qed

lemma run_no_finish:
  "StopAwaitClose \<notin> set (tasks s) \<Longrightarrow> ClickStop \<notin> set es \<Longrightarrow> run es s = Some s' \<Longrightarrow>
   filter is_finish (calls s') = filter is_finish (calls s)
   \<and> StopAwaitClose \<notin> set (tasks s')"
proof (induction es arbitrary: s)
  case Nil
  then show ?case by simp
next
  case (Cons e es)
  from Cons.prems(3) obtain s1 where s1: "step e s = Some s1" and r: "run es s1 = Some s'"
    by (auto split: option.splits)
  from Cons.prems(2) have ne: "e \<noteq> ClickStop" and nes: "ClickStop \<notin> set es" by auto
  from step_no_finish [OF s1 ne Cons.prems(1)]
  have a: "filter is_finish (calls s1) = filter is_finish (calls s)"
    and b: "StopAwaitClose \<notin> set (tasks s1)" by blast+
  from Cons.IH [OF b nes r] a show ?case by simp
qed

section \<open>Stopping\<close>

lemma handleStop_stopped:
  "\<not> recordingRef s \<Longrightarrow>
   \<not> recordingRef (handleStop s)
   \<and> filter is_push (calls (handleStop s)) = filter is_push (calls s)
   \<and> (bufferRef (handleStop s) = bufferRef s \<or> bufferRef (handleStop s) = [])"
  by (simp add: handleStop_def stopAudioPipeline_begin_def stopAudioPipeline_end_def
      stop_finish_def stop_finally_def Let_def split: option.split)

lemma start_failed_stopped:
  "\<not> recordingRef (start_failed err s)
   \<and> calls (start_failed err s) = calls s
   \<and> bufferRef (start_failed err s) = bufferRef s"
  by (simp add: start_failed_def stopAudioPipeline_begin_def stopAudioPipeline_end_def
      Let_def split: option.split)

lemma stop_finish_stopped:
  "recordingRef (stop_finish s) = recordingRef s
   \<and> filter is_push (calls (stop_finish s)) = filter is_push (calls s)
   \<and> (bufferRef (stop_finish s) = bufferRef s \<or> bufferRef (stop_finish s) = [])"
  by (simp add: stop_finish_def stop_finally_def split: option.split)

lemma resume_stopped:
  assumes "\<not> recordingRef s" and "resume t out s = Some s'"
  shows "\<not> recordingRef s'
       \<and> filter is_push (calls s') = filter is_push (calls s)
       \<and> (bufferRef s' = bufferRef s \<or> bufferRef s' = [])"
proof (cases t)
  case PumpAwaitPush
  with assms show ?thesis
    by (cases out) (auto simp: drain_stopped)
next
  case StartAwaitSession
  with assms show ?thesis
    by (cases out) (auto simp: start_failed_stopped)
next
  case StartAwaitMedia
  with assms show ?thesis
    by (cases out) (auto simp: start_failed_stopped)
next
  case StartAwaitClose
  with assms show ?thesis
    by (auto simp: stopAudioPipeline_end_def split: if_splits)
next
  case StopAwaitClose
  with assms have s': "s' = stop_finish (stopAudioPipeline_end s)"
    by (auto split: if_splits)
  show ?thesis
    using stop_finish_stopped [of "stopAudioPipeline_end s"] assms(1)
    by (simp add: s' stopAudioPipeline_end_def)
next
  case StopAwaitFinish
  with assms show ?thesis
    by (cases out) (auto simp: stop_finally_def)
qed

lemma step_stopped:
  assumes "\<not> recordingRef s" and "e \<noteq> ClickStart" and "step e s = Some s'"
  shows "\<not> recordingRef s'
       \<and> filter is_push (calls s') = filter is_push (calls s)
       \<and> (bufferRef s' = bufferRef s \<or> bufferRef s' = [])"
proof (cases e)
  case ClickStart
  with assms show ?thesis by simp
next
  case ClickStop
  with assms have "s' = handleStop s" by simp
  then show ?thesis using handleStop_stopped [OF assms(1)] by simp
next
  case (Audio p input)
  with assms have "s' = s"
    by (auto simp: onaudioprocess_def split: option.splits)
  then show ?thesis using assms(1) by simp
next
  case (Settle i out)
  let ?s0 = "s\<lparr>tasks := take i (tasks s) @ drop (Suc i) (tasks s)\<rparr>"
  from Settle assms have r: "resume (tasks s ! i) out ?s0 = Some s'"
    by (simp split: if_splits)
  have "\<not> recordingRef ?s0" using assms(1) by simp
  from resume_stopped [OF this r] show ?thesis by simp
qed

lemma run_stopped:
  "\<not> recordingRef s \<Longrightarrow> ClickStart \<notin> set es \<Longrightarrow> run es s = Some s' \<Longrightarrow>
   \<not> recordingRef s'
   \<and> filter is_push (calls s') = filter is_push (calls s)
   \<and> (bufferRef s' = bufferRef s \<or> bufferRef s' = [])"
proof (induction es arbitrary: s)
  case Nil
  then show ?case by simp
next
  case (Cons e es)
  from Cons.prems obtain s1 where s1: "step e s = Some s1" and r: "run es s1 = Some s'"
    by (auto split: option.splits)
  from Cons.prems have ne: "e \<noteq> ClickStart" and nes: "ClickStart \<notin> set es" by auto
  from step_stopped [OF Cons.prems(1) ne s1]
  have a: "\<not> recordingRef s1" and b: "filter is_push (calls s1) = filter is_push (calls s)"
    and c: "bufferRef s1 = bufferRef s \<or> bufferRef s1 = []" by blast+
  from Cons.IH [OF a nes r]
  have a': "\<not> recordingRef s'" and b': "filter is_push (calls s') = filter is_push (calls s1)"
    and c': "bufferRef s' = bufferRef s1 \<or> bufferRef s' = []" by blast+
  from a' b b' c c' show ?case by auto
qed

lemma map_of_filter_fst: "map_of (filter (\<lambda>h. fst h \<noteq> p) hs) p = None"
  by (induction hs) auto

lemma handleStop_teardown:
  assumes "isRecording s"
  shows "\<not> recordingRef (handleStop s)"
    and "\<forall>p. processorRef s = Some p \<longrightarrow> map_of (handlers (handleStop s)) p = None"
    and "filter is_push (calls (handleStop s)) = filter is_push (calls s)"
    and "bufferRef (handleStop s) = bufferRef s \<or> bufferRef (handleStop s) = []"
    and "calls (handleStop s) = calls s
         \<or> (\<exists>sid. calls (handleStop s) = calls s @ [ApiFinish sid])
            \<and> processorRef (handleStop s) = None \<and> \<not> audioContextRef (handleStop s)"
  using assms
  by (simp_all add: handleStop_def stopAudioPipeline_begin_def stopAudioPipeline_end_def
      stop_finish_def stop_finally_def Let_def map_of_filter_fst split: option.split)

lemma run_stopping:
  "run [ClickStop, Settle 0 (Json (Reply None (Some ''hi'')))] backlog = Some stopping"
  by (simp add: backlog_def busy_def stopping_def eval_simps)

text \<open>
  C2, as the code has it. A stop issued while recording (state \<open>s\<close>) clears the recording
  flag at once, and it stays clear until the next start. From the click until the next
  start no chunk is extracted or sent: the \<open>pushChunk\<close> requests are those made before the
  click, and the buffer keeps its samples until stop's cleanup empties it. The capture
  handler that \<open>processorRef\<close> holds at the click is removed at the click. If an audio
  context is open at the click, nothing is requested at the click and stop waits for
  \<open>close()\<close>. Any step \<open>e\<close> of the component, from any state \<open>x\<close>, that requests
  \<open>finishSession\<close> leaves processor, source, audio context and media stream released, and
  is either a stop click with no audio context open or the settling of \<open>close()\<close> for a
  waiting stop: the request is made only once \<open>stopAudioPipeline\<close> has returned.
\<close>

theorem stop_halts_draining:
  assumes "isRecording s" and "step ClickStop s = Some s1"
    and "ClickStart \<notin> set es" and "run es s1 = Some s2"
    and "step e x = Some x'"
    and "filter is_finish (calls x') \<noteq> filter is_finish (calls x)"
  shows "\<not> recordingRef s1 \<and> \<not> recordingRef s2
       \<and> (\<forall>p. processorRef s = Some p \<longrightarrow> map_of (handlers s1) p = None)
       \<and> filter is_push (calls s2) = filter is_push (calls s)
       \<and> (bufferRef s2 = bufferRef s \<or> bufferRef s2 = [])
       \<and> (calls s1 = calls s
          \<or> (\<exists>sid. calls s1 = calls s @ [ApiFinish sid])
             \<and> processorRef s1 = None \<and> \<not> audioContextRef s1)
       \<and> (audioContextRef s \<longrightarrow> calls s1 = calls s \<and> tasks s1 = tasks s @ [StopAwaitClose])
       \<and> processorRef x' = None \<and> \<not> audioContextRef x' \<and> \<not> sourceRef x'
       \<and> \<not> mediaStreamRef x'
       \<and> (e = ClickStop \<and> isRecording x \<and> \<not> audioContextRef x
          \<or> (\<exists>i c. e = Settle i c \<and> closing c \<and> i < length (tasks x)
                    \<and> tasks x ! i = StopAwaitClose))"
proof -
  from assms(2) have s1: "s1 = handleStop s" by simp
  note t = handleStop_teardown [OF assms(1)]
  have a: "\<not> recordingRef s1" using t(1) by (simp add: s1)
  from run_stopped [OF a assms(3) assms(4)]
  have b: "\<not> recordingRef s2"
    and c: "filter is_push (calls s2) = filter is_push (calls s1)"
    and d: "bufferRef s2 = bufferRef s1 \<or> bufferRef s2 = []" by blast+
  have e: "filter is_push (calls s2) = filter is_push (calls s)"
    using c t(3) by (simp add: s1)
  have f: "bufferRef s2 = bufferRef s \<or> bufferRef s2 = []"
    using d t(4) unfolding s1 by metis
  have g: "audioContextRef s \<longrightarrow> calls s1 = calls s \<and> tasks s1 = tasks s @ [StopAwaitClose]"
    using assms(1)
    by (simp add: s1 handleStop_def stopAudioPipeline_begin_def Let_def split: option.split)
  note h = step_finish [OF assms(5) assms(6)]
  show ?thesis using a b e f g h t(2) t(5) unfolding s1 by blast
qed

theorem stop_halts_draining_witness:
  "isRecording backlog \<and> step ClickStop backlog = Some (handleStop backlog)
   \<and> ClickStart \<notin> set (tl stop_trace)
   \<and> run (tl stop_trace) (handleStop backlog) = Some finished
   \<and> step (Settle 0 Closed) stopping
       = Some (stopping\<lparr>processorRef := None, sourceRef := False, audioContextRef := False,
                         mediaStreamRef := False,
                         calls := calls stopping @ [ApiFinish ''s1''],
                         tasks := [StopAwaitFinish]\<rparr>)
   \<and> \<not> recordingRef finished
   \<and> filter is_push (calls finished) = filter is_push (calls backlog)
   \<and> calls (handleStop backlog) = calls backlog
   \<and> tasks (handleStop backlog) = tasks backlog @ [StopAwaitClose]"
proof -
  let ?x' = "stopping\<lparr>processorRef := None, sourceRef := False, audioContextRef := False,
                       mediaStreamRef := False,
                       calls := calls stopping @ [ApiFinish ''s1''],
                       tasks := [StopAwaitFinish]\<rparr>"
  have h1: "isRecording backlog" by (simp add: backlog_def busy_def)
  have h2: "step ClickStop backlog = Some (handleStop backlog)" by simp
  have h3: "ClickStart \<notin> set (tl stop_trace)" by (simp add: stop_trace_def)
  have h4: "run (tl stop_trace) (handleStop backlog) = Some finished"
    using run_finished by (simp add: stop_trace_def)
  have h5: "step (Settle 0 Closed) stopping = Some ?x'"
    by (simp add: stopping_def backlog_def busy_def eval_simps)
  have h6: "filter is_finish (calls ?x') \<noteq> filter is_finish (calls stopping)"
    by (simp add: stopping_def backlog_def busy_def)
  have ac: "audioContextRef backlog" by (simp add: backlog_def busy_def)
  note w = stop_halts_draining [OF h1 h2 h3 h4 h5 h6]
  have a: "\<not> recordingRef finished" using w by blast
  have b: "filter is_push (calls finished) = filter is_push (calls backlog)" using w by blast
  have c: "calls (handleStop backlog) = calls backlog
           \<and> tasks (handleStop backlog) = tasks backlog @ [StopAwaitClose]"
    using w ac by blast
  from h1 h2 h3 h4 h5 a b c show ?thesis by blast
qed

text \<open>
  Against C2 as it is written: in \<open>backlog\<close> the session is recording and the buffer holds
  8384 samples, a full chunk of 8000 among them. After stop, the reply to the request in
  flight, the release of the audio context and the reply to \<open>finishSession\<close>, the only chunk
  ever sent is the first one; the waiting chunk was dropped with the buffer.
\<close>

theorem stop_drains_counterexample:
  "run (busy_trace @ [Audio 0 block, Audio 0 block]) init = Some backlog
   \<and> isRecording backlog \<and> recordingRef backlog
   \<and> chunkSamples \<le> length (bufferRef backlog)
   \<and> run stop_trace backlog = Some finished
   \<and> calls finished
       = [ApiStart, ApiPushChunk ''s1'' (replicate 8000 (Num 0)), ApiFinish ''s1'']
   \<and> bufferRef finished = []"
  using run_backlog run_finished
  by (simp add: backlog_def busy_def finished_def chunkSamples_eq)

section \<open>Guards of the click handlers\<close>

text \<open>
  C10. Start while already recording and stop while not recording return at once: the
  whole state, with the log of requests and the suspended calls, is unchanged.
\<close>

theorem click_guards:
  "(isRecording s \<longrightarrow> handleStart s = s \<and> step ClickStart s = Some s)
   \<and> (\<not> isRecording t \<longrightarrow> handleStop t = t \<and> step ClickStop t = Some t)"
  by (simp add: handleStart_def handleStop_def)

theorem click_guards_witness:
  "isRecording busy \<and> step ClickStart busy = Some busy
   \<and> \<not> isRecording init \<and> step ClickStop init = Some init"
proof -
  have h1: "isRecording busy" by (simp add: busy_def)
  have h2: "\<not> isRecording init" by (simp add: init_def)
  from click_guards [of busy init] h1 h2 show ?thesis by blast
qed

section \<open>Start followed by stop\<close>



lemma run_midstart: "run midstart_trace init = Some midstart"
  by (simp add: midstart_trace_def init_def midstart_def eval_simps)

lemma midstart_never_finished:
  assumes "ClickStop \<notin> set es" and "run (midstart_trace @ es) init = Some s"
  shows "filter is_finish (calls s) = []"
proof -
  from assms(2) have r: "run es midstart = Some s" by (simp add: run_append run_midstart)
  have "StopAwaitClose \<notin> set (tasks midstart)" by (simp add: midstart_def)
  from run_no_finish [OF this assms(1) r] show ?thesis by (simp add: midstart_def)
qed




section \<open>Chunks without a session\<close>

text \<open>
  C9. With the recording flag set and a full chunk in the buffer, the loop removes the
  chunk in either case. With a session id (state \<open>s\<close>) the chunk is sent and the pump waits
  for the reply; with no session id (state \<open>t\<close>) nothing is sent and nothing waits: the
  loop goes on and drops every full chunk, leaving less than one chunk in the buffer.
  The second case occurs: in \<open>orphan_trace\<close> two blocks arrive while a new start still
  waits for its session id, and of their 8192 samples 192 remain, with no request made
  (\<open>run_orphaned\<close>).
\<close>

theorem drain_without_session:
  assumes "recordingRef s" and "chunkSamples \<le> length (bufferRef s)"
    and "sessionIdRef s = Some sid" and "sid \<noteq> []"
    and "recordingRef t" and "chunkSamples \<le> length (bufferRef t)"
    and "sessionIdRef t = None"
  shows "drain s = s\<lparr>bufferRef := drop chunkSamples (bufferRef s),
                       calls := calls s @ [ApiPushChunk sid (take chunkSamples (bufferRef s))],
                       tasks := tasks s @ [PumpAwaitPush]\<rparr>
       \<and> drain t = drain (t\<lparr>bufferRef := drop chunkSamples (bufferRef t)\<rparr>)
       \<and> calls (drain t) = calls t \<and> tasks (drain t) = tasks t
       \<and> bufferRef (drain t)
           = drop (length (bufferRef t) div chunkSamples * chunkSamples) (bufferRef t)
       \<and> length (bufferRef (drain t)) < chunkSamples
       \<and> length (bufferRef (drain t)) < length (bufferRef t)"
proof -
  have a: "drain s = s\<lparr>bufferRef := drop chunkSamples (bufferRef s),
                       calls := calls s @ [ApiPushChunk sid (take chunkSamples (bufferRef s))],
                       tasks := tasks s @ [PumpAwaitPush]\<rparr>"
    using assms(1-4) by (rule drain_send)
  have b: "drain t = drain (t\<lparr>bufferRef := drop chunkSamples (bufferRef t)\<rparr>)"
    using assms(5-7) by (simp add: drain_discard)
  have c: "drain t = t\<lparr>bufferRef := drop (length (bufferRef t) div chunkSamples * chunkSamples)
                                     (bufferRef t), pushingRef := False\<rparr>"
    using assms(5,7) by (simp add: drain_no_session)
  have pos: "0 < chunkSamples" by (simp add: chunkSamples_eq)
  have c1: "calls (drain t) = calls t" by (simp add: c)
  have c2: "tasks (drain t) = tasks t" by (simp add: c)
  have c3: "bufferRef (drain t)
            = drop (length (bufferRef t) div chunkSamples * chunkSamples) (bufferRef t)"
    by (simp add: c)
  have "length (bufferRef t) - length (bufferRef t) div chunkSamples * chunkSamples
        = length (bufferRef t) mod chunkSamples"
    by (simp add: minus_div_mult_eq_mod)
  then have d: "length (bufferRef (drain t)) = length (bufferRef t) mod chunkSamples"
    by (simp add: c3)
  have e: "length (bufferRef t) mod chunkSamples < chunkSamples"
    using pos by simp
  have f: "length (bufferRef (drain t)) < chunkSamples"
    using d e by simp
  have g: "length (bufferRef (drain t)) < length (bufferRef t)"
    using f assms(6) by simp
  from a b c1 c2 c3 f g show ?thesis by blast
qed

theorem drain_without_session_witness:
  "recordingRef backlog \<and> chunkSamples \<le> length (bufferRef backlog)
   \<and> sessionIdRef backlog = Some ''s1'' \<and> ''s1'' \<noteq> []
   \<and> sessionIdRef (backlog\<lparr>sessionIdRef := None\<rparr>) = None
   \<and> calls (drain backlog) = calls backlog @ [ApiPushChunk ''s1'' (replicate 8000 (Num 0))]
   \<and> calls (drain (backlog\<lparr>sessionIdRef := None\<rparr>)) = calls backlog
   \<and> length (bufferRef (drain (backlog\<lparr>sessionIdRef := None\<rparr>))) < chunkSamples"
proof -
  have h1: "recordingRef backlog" by (simp add: backlog_def busy_def)
  have h2: "chunkSamples \<le> length (bufferRef backlog)"
    by (simp add: backlog_def busy_def chunkSamples_eq)
  have h3: "sessionIdRef backlog = Some ''s1''" by (simp add: backlog_def busy_def)
  have h4: "''s1'' \<noteq> []" by simp
  have h5: "recordingRef (backlog\<lparr>sessionIdRef := None\<rparr>)" using h1 by simp
  have h6: "chunkSamples \<le> length (bufferRef (backlog\<lparr>sessionIdRef := None\<rparr>))"
    using h2 by simp
  have h7: "sessionIdRef (backlog\<lparr>sessionIdRef := None\<rparr>) = None" by simp
  have tk: "take chunkSamples (bufferRef backlog) = replicate 8000 (Num 0)"
    by (simp add: backlog_def busy_def chunkSamples_eq)
  note w = drain_without_session [OF h1 h2 h3 h4 h5 h6 h7]
  from w have "drain backlog = backlog\<lparr>bufferRef := drop chunkSamples (bufferRef backlog),
         calls := calls backlog @ [ApiPushChunk ''s1'' (take chunkSamples (bufferRef backlog))],
         tasks := tasks backlog @ [PumpAwaitPush]\<rparr>"
    by blast
  then have a: "calls (drain backlog)
                = calls backlog @ [ApiPushChunk ''s1'' (replicate 8000 (Num 0))]"
    by (simp add: tk)
  from w have "calls (drain (backlog\<lparr>sessionIdRef := None\<rparr>))
               = calls (backlog\<lparr>sessionIdRef := None\<rparr>)"
    by blast
  then have b: "calls (drain (backlog\<lparr>sessionIdRef := None\<rparr>)) = calls backlog"
    by simp
  have c: "length (bufferRef (drain (backlog\<lparr>sessionIdRef := None\<rparr>))) < chunkSamples"
    using w by blast
  from h1 h2 h3 h4 h7 a b c show ?thesis by blast
qed

section \<open>The single-flight flag\<close>

lemma inflight_remove:
  assumes "i < length (tasks s)"
  shows "inflight (s\<lparr>tasks := take i (tasks s) @ drop (Suc i) (tasks s)\<rparr>)
         = inflight s - (if tasks s ! i = PumpAwaitPush then 1 else 0)"
proof -
  have "tasks s = take i (tasks s) @ tasks s ! i # drop (Suc i) (tasks s)"
    using assms by (rule id_take_nth_drop)
  then have "filter (\<lambda>t. t = PumpAwaitPush) (tasks s)
             = filter (\<lambda>t. t = PumpAwaitPush) (take i (tasks s) @ tasks s ! i # drop (Suc i) (tasks s))"
    by simp
  then show ?thesis
    by (simp add: inflight_def del: append_take_drop_id)
qed

lemma pump_outcome:
  assumes "\<not> pushingRef s"
  shows "(tasks (pump s) = tasks s @ [PumpAwaitPush] \<and> pushingRef (pump s))
       \<or> (tasks (pump s) = tasks s \<and> \<not> pushingRef (pump s))"
proof -
  have "pump s = drain (s\<lparr>pushingRef := True\<rparr>)"
    using assms by (simp add: pump_def)
  then show ?thesis
    using drain_outcome [of "s\<lparr>pushingRef := True\<rparr>"] by auto
qed

lemma pump_resume_outcome:
  assumes "pump_resume out s = Some s'"
  shows "(tasks s' = tasks s @ [PumpAwaitPush] \<and> pushingRef s' = pushingRef s)
       \<or> (tasks s' = tasks s \<and> \<not> pushingRef s')"
proof (cases out)
  case (Json j)
  let ?s = "s\<lparr>language := or_empty (reply_language j), transcript := or_empty (reply_text j)\<rparr>"
  from Json assms have "s' = drain ?s" by simp
  then show ?thesis using drain_outcome [of ?s] by auto
next
  case (Rejected err)
  with assms show ?thesis by auto
qed (use assms in simp_all)

lemma onaudioprocess_flag:
  assumes "pushingRef s \<longrightarrow> 0 < inflight s"
  shows "pushingRef (onaudioprocess rate input s) \<longrightarrow> 0 < inflight (onaudioprocess rate input s)"
proof (cases "recordingRef s")
  case False
  then show ?thesis using assms by (simp add: onaudioprocess_def)
next
  case True
  show ?thesis
  proof (cases "resampleLinear input rate TARGET_SR")
    case (Inl e)
    then show ?thesis using assms True by (simp add: onaudioprocess_def)
  next
    case (Inr resampled)
    let ?s1 = "s\<lparr>bufferRef := concatFloat32 (bufferRef s) resampled\<rparr>"
    show ?thesis
    proof (cases "pushingRef s")
      case p: True
      then have "onaudioprocess rate input s = ?s1"
        using True Inr by (simp add: onaudioprocess_def)
      then show ?thesis using assms by (simp add: inflight_def)
    next
      case p: False
      then have eq: "onaudioprocess rate input s = pump ?s1"
        using True Inr by (simp add: onaudioprocess_def)
      have "\<not> pushingRef ?s1" using p by simp
      from pump_outcome [OF this] show ?thesis
        by (auto simp: eq inflight_def)
    qed
  qed
qed

lemma handleStart_flag:
  "pushingRef (handleStart s) = pushingRef s \<and> inflight (handleStart s) = inflight s"
  by (simp add: handleStart_def inflight_def)

lemma stop_finish_flag:
  "(pushingRef (stop_finish s) \<longrightarrow> pushingRef s) \<and> inflight (stop_finish s) = inflight s"
  by (simp add: stop_finish_def stop_finally_def inflight_def split: option.split)

lemma handleStop_flag:
  "(pushingRef (handleStop s) \<longrightarrow> pushingRef s) \<and> inflight (handleStop s) = inflight s"
  by (simp add: handleStop_def stopAudioPipeline_begin_def stopAudioPipeline_end_def
      stop_finish_def stop_finally_def inflight_def Let_def split: option.split)

lemma start_failed_flag:
  "pushingRef (start_failed err s) = pushingRef s \<and> inflight (start_failed err s) = inflight s"
  by (simp add: start_failed_def stopAudioPipeline_begin_def stopAudioPipeline_end_def
      inflight_def Let_def split: option.split)

lemma resume_other_flag:
  assumes "t \<noteq> PumpAwaitPush" and "resume t out s = Some s'"
  shows "(pushingRef s' \<longrightarrow> pushingRef s) \<and> inflight s' = inflight s"
proof (cases t)
  case PumpAwaitPush
  with assms show ?thesis by simp
next
  case StartAwaitSession
  show ?thesis
  proof (cases out)
    case (Rejected err)
    with StartAwaitSession assms have "s' = start_failed err s" by simp
    then show ?thesis using start_failed_flag [of err s] by simp
  qed (use StartAwaitSession assms in \<open>auto simp: inflight_def\<close>)
next
  case StartAwaitMedia
  show ?thesis
  proof (cases out)
    case (Rejected err)
    with StartAwaitMedia assms have "s' = start_failed err s" by simp
    then show ?thesis using start_failed_flag [of err s] by simp
  qed (use StartAwaitMedia assms in \<open>auto simp: inflight_def\<close>)
next
  case StartAwaitClose
  with assms show ?thesis
    by (auto simp: stopAudioPipeline_end_def inflight_def split: if_splits)
next
  case StopAwaitClose
  with assms have s': "s' = stop_finish (stopAudioPipeline_end s)"
    by (auto split: if_splits)
  show ?thesis
    using stop_finish_flag [of "stopAudioPipeline_end s"]
    by (simp add: s' stopAudioPipeline_end_def inflight_def)
next
  case StopAwaitFinish
  with assms show ?thesis
    by (cases out) (auto simp: stop_finally_def inflight_def)
qed

lemma step_flag:
  assumes "pushingRef s \<longrightarrow> 0 < inflight s" and "step e s = Some s'"
  shows "pushingRef s' \<longrightarrow> 0 < inflight s'"
proof (cases e)
  case ClickStart
  with assms show ?thesis using handleStart_flag [of s] by auto
next
  case ClickStop
  with assms show ?thesis using handleStop_flag [of s] by auto
next
  case (Audio p input)
  with assms(2) obtain rate where "s' = onaudioprocess rate input s"
    by (auto split: option.splits)
  then show ?thesis using onaudioprocess_flag [OF assms(1)] by simp
next
  case (Settle i out)
  let ?s0 = "s\<lparr>tasks := take i (tasks s) @ drop (Suc i) (tasks s)\<rparr>"
  from Settle assms(2) have i: "i < length (tasks s)"
    and r: "resume (tasks s ! i) out ?s0 = Some s'"
    by (simp_all split: if_splits)
  show ?thesis
  proof (cases "tasks s ! i = PumpAwaitPush")
    case True
    with r have "pump_resume out ?s0 = Some s'" by simp
    from pump_resume_outcome [OF this] show ?thesis
      by (auto simp: inflight_def)
  next
    case False
    from resume_other_flag [OF False r] inflight_remove [OF i] False assms(1)
    show ?thesis by auto
  qed
qed

lemma run_flag:
  "pushingRef s \<longrightarrow> 0 < inflight s \<Longrightarrow> run es s = Some s' \<Longrightarrow>
   pushingRef s' \<longrightarrow> 0 < inflight s'"
proof (induction es arbitrary: s)
  case Nil
  then show ?case by simp
next
  case (Cons e es)
  from Cons.prems(2) obtain s1 where s1: "step e s = Some s1" and r: "run es s1 = Some s'"
    by (auto split: option.splits)
  from Cons.IH [OF step_flag [OF Cons.prems(1) s1] r] show ?case .
qed

text \<open>
  C8. A pump that starts (flag clear, state \<open>x\<close>) sets the flag before the loop; when it
  stops at an \<open>await\<close> the flag is set, and when the loop has exited the flag is clear.
  A pump that continues after its request settled (state \<open>y\<close>), with a reply or with a
  failure, either waits again with the flag as it was or has exited with the flag clear;
  after a failure it has always exited. So in every state \<open>s\<close> the component can reach,
  a set flag means that a request of some pump has still to settle: the flag is never
  left set with nothing that would clear it.
\<close>

theorem pump_flag_discipline:
  assumes "run es init = Some s" and "\<not> pushingRef x"
    and "pump_resume out y = Some y'" and "pump_resume (Rejected err) y = Some y''"
  shows "(pushingRef s \<longrightarrow> 0 < inflight s)
       \<and> pump x = drain (x\<lparr>pushingRef := True\<rparr>)
       \<and> ((tasks (pump x) = tasks x @ [PumpAwaitPush] \<and> pushingRef (pump x))
          \<or> (tasks (pump x) = tasks x \<and> \<not> pushingRef (pump x)))
       \<and> ((tasks y' = tasks y @ [PumpAwaitPush] \<and> pushingRef y' = pushingRef y)
          \<or> (tasks y' = tasks y \<and> \<not> pushingRef y'))
       \<and> tasks y'' = tasks y \<and> \<not> pushingRef y''"
proof -
  have i: "pushingRef init \<longrightarrow> 0 < inflight init" by (simp add: init_def)
  have a: "pushingRef s \<longrightarrow> 0 < inflight s" using run_flag [OF i assms(1)] .
  have b: "pump x = drain (x\<lparr>pushingRef := True\<rparr>)" using assms(2) by (simp add: pump_def)
  note c = pump_outcome [OF assms(2)]
  note d = pump_resume_outcome [OF assms(3)]
  have e: "tasks y'' = tasks y \<and> \<not> pushingRef y''" using assms(4) by auto
  from a b c d e show ?thesis by blast
qed

theorem pump_flag_discipline_witness:
  "run busy_trace init = Some busy \<and> \<not> pushingRef init
   \<and> pump_resume (Json (Reply None None)) (busy\<lparr>tasks := []\<rparr>)
       = Some (drain (busy\<lparr>tasks := [], language := [], transcript := []\<rparr>))
   \<and> pump_resume (Rejected ''500'') (busy\<lparr>tasks := []\<rparr>) = Some failed
   \<and> pushingRef busy \<and> 0 < inflight busy \<and> \<not> pushingRef failed \<and> \<not> pushingRef (pump init)"
proof -
  have h1: "run busy_trace init = Some busy" by (rule run_busy)
  have h2: "\<not> pushingRef init" by (simp add: init_def)
  have h3: "pump_resume (Json (Reply None None)) (busy\<lparr>tasks := []\<rparr>)
            = Some (drain (busy\<lparr>tasks := [], language := [], transcript := []\<rparr>))"
    by (simp add: or_empty_def)
  have h4: "pump_resume (Rejected ''500'') (busy\<lparr>tasks := []\<rparr>) = Some failed"
    by (simp add: failed_def busy_def)
  note w = pump_flag_discipline [OF h1 h2 h3 h4]
  have p: "pushingRef busy" by (simp add: busy_def)
  have a: "0 < inflight busy" using w p by blast
  have b: "\<not> pushingRef failed" using w by blast
  have "tasks (pump init) \<noteq> tasks init @ [PumpAwaitPush]"
    by (simp add: pump_def init_def drain_stopped)
  then have c: "\<not> pushingRef (pump init)" using w by blast
  from h1 h2 h3 h4 p a b c show ?thesis by blast
qed

section \<open>Single flight\<close>

lemma inflight_append:
  "inflight (s\<lparr>tasks := tasks s @ [t]\<rparr>) = inflight s + (if t = PumpAwaitPush then 1 else 0)"
  by (simp add: inflight_def)

lemma inflight_pos: "i < length (tasks s) \<Longrightarrow> tasks s ! i = PumpAwaitPush \<Longrightarrow> 0 < inflight s"
  unfolding inflight_def
  by (metis (mono_tags, lifting) filter_empty_conv length_greater_0_conv nth_mem)

lemma onaudioprocess_single:
  assumes "single_flight s"
  shows "single_flight (onaudioprocess rate input s)"
proof (cases "recordingRef s")
  case False
  then show ?thesis using assms by (simp add: onaudioprocess_def)
next
  case True
  show ?thesis
  proof (cases "resampleLinear input rate TARGET_SR")
    case (Inl e)
    then show ?thesis using assms True by (simp add: onaudioprocess_def)
  next
    case (Inr resampled)
    let ?s1 = "s\<lparr>bufferRef := concatFloat32 (bufferRef s) resampled\<rparr>"
    show ?thesis
    proof (cases "pushingRef s")
      case p: True
      then have "onaudioprocess rate input s = ?s1"
        using True Inr by (simp add: onaudioprocess_def)
      then show ?thesis using assms by (simp add: single_flight_def inflight_def)
    next
      case p: False
      then have eq: "onaudioprocess rate input s = pump ?s1"
        using True Inr by (simp add: onaudioprocess_def)
      have z: "inflight s = 0" using assms p by (auto simp: single_flight_def)
      have "\<not> pushingRef ?s1" using p by simp
      from pump_outcome [OF this] show ?thesis
        using assms z by (auto simp: eq single_flight_def inflight_def)
    qed
  qed
qed

lemma start_failed_tasks:
  "pushingRef (start_failed err s) = pushingRef s
   \<and> (tasks (start_failed err s) = tasks s \<or> tasks (start_failed err s) = tasks s @ [StartAwaitClose])"
  by (simp add: start_failed_def stopAudioPipeline_begin_def stopAudioPipeline_end_def
      Let_def split: option.split)

lemma single_flight_tasks:
  assumes "single_flight s" and "pushingRef s' = pushingRef s"
    and "tasks s' = tasks s \<or> tasks s' = tasks s @ [t]"
    and "t \<noteq> PumpAwaitPush" and "t \<noteq> StopAwaitClose" and "t \<noteq> StopAwaitFinish"
  shows "single_flight s'"
  using assms by (auto simp: single_flight_def inflight_def)

lemma single_flight_remove:
  assumes "single_flight s" and "i < length (tasks s)" and "tasks s ! i \<noteq> PumpAwaitPush"
  shows "single_flight (s\<lparr>tasks := take i (tasks s) @ drop (Suc i) (tasks s)\<rparr>)"
proof -
  let ?s0 = "s\<lparr>tasks := take i (tasks s) @ drop (Suc i) (tasks s)\<rparr>"
  have a: "inflight ?s0 = inflight s" using inflight_remove [OF assms(2)] assms(3) by simp
  have b: "set (tasks ?s0) \<subseteq> set (tasks s)" using set_remove_nth [of i "tasks s"] by simp
  show ?thesis using assms(1) a b unfolding single_flight_def by auto
qed

lemma step_single:
  assumes "single_flight s" and "e \<noteq> ClickStop" and "step e s = Some s'"
  shows "single_flight s'"
proof (cases e)
  case ClickStart
  with assms(3) have s': "s' = handleStart s" by simp
  show ?thesis
  proof (cases "isRecording s")
    case True
    then show ?thesis using assms(1) by (simp add: s' handleStart_def)
  next
    case False
    have "pushingRef s' = pushingRef s" "tasks s' = tasks s @ [StartAwaitSession]"
      using False by (simp_all add: s' handleStart_def)
    then show ?thesis using single_flight_tasks [OF assms(1), of s' StartAwaitSession] by simp
  qed
next
  case ClickStop
  with assms show ?thesis by simp
next
  case (Audio p input)
  with assms(3) obtain rate where "s' = onaudioprocess rate input s"
    by (auto split: option.splits)
  then show ?thesis using onaudioprocess_single [OF assms(1)] by simp
next
  case (Settle i out)
  let ?s0 = "s\<lparr>tasks := take i (tasks s) @ drop (Suc i) (tasks s)\<rparr>"
  from Settle assms(3) have i: "i < length (tasks s)"
    and r: "resume (tasks s ! i) out ?s0 = Some s'"
    by (simp_all split: if_splits)
  have mem: "tasks s ! i \<in> set (tasks s)" using i by simp
  show ?thesis
  proof (cases "tasks s ! i")
    case PumpAwaitPush
    have pos: "0 < inflight s" using inflight_pos [OF i PumpAwaitPush] .
    then have one: "inflight s = 1" and flag: "pushingRef s"
      using assms(1) by (auto simp: single_flight_def)
    have zero: "inflight ?s0 = 0" using inflight_remove [OF i] PumpAwaitPush one by simp
    have sub: "set (tasks ?s0) \<subseteq> set (tasks s)" using set_remove_nth [of i "tasks s"] by simp
    from r PumpAwaitPush have "pump_resume out ?s0 = Some s'" by simp
    from pump_resume_outcome [OF this] show ?thesis
    proof
      assume a: "tasks s' = tasks ?s0 @ [PumpAwaitPush] \<and> pushingRef s' = pushingRef ?s0"
      then have "inflight s' = 1" using zero by (simp add: inflight_def)
      moreover have "pushingRef s'" using a flag by simp
      moreover have "set (tasks s') \<subseteq> insert PumpAwaitPush (set (tasks s))"
        using a sub by auto
      ultimately show ?thesis using assms(1) unfolding single_flight_def by auto
    next
      assume a: "tasks s' = tasks ?s0 \<and> \<not> pushingRef s'"
      then have "inflight s' = 0" using zero by (simp add: inflight_def)
      moreover have "set (tasks s') \<subseteq> set (tasks s)" using a sub by simp
      ultimately show ?thesis using assms(1) unfolding single_flight_def by auto
    qed
  next
    case StartAwaitSession
    then have ne: "tasks s ! i \<noteq> PumpAwaitPush" by simp
    note s0 = single_flight_remove [OF assms(1) i ne]
    show ?thesis
    proof (cases out)
      case (SessionId sid)
      with r StartAwaitSession
      have "pushingRef s' = pushingRef ?s0" "tasks s' = tasks ?s0 @ [StartAwaitMedia]" by auto
      then show ?thesis using single_flight_tasks [OF s0, of s' StartAwaitMedia] by simp
    next
      case (Rejected err)
      with r StartAwaitSession have s': "s' = start_failed err ?s0" by simp
      show ?thesis
        using single_flight_tasks [OF s0, of s' StartAwaitClose] start_failed_tasks [of err ?s0]
        unfolding s' by simp
    qed (use r StartAwaitSession in simp_all)
  next
    case StartAwaitMedia
    then have ne: "tasks s ! i \<noteq> PumpAwaitPush" by simp
    note s0 = single_flight_remove [OF assms(1) i ne]
    show ?thesis
    proof (cases out)
      case (Media rate)
      with r StartAwaitMedia
      have "pushingRef s' = pushingRef ?s0" "tasks s' = tasks ?s0" by auto
      then show ?thesis using single_flight_tasks [OF s0, of s' StartAwaitClose] by simp
    next
      case (Rejected err)
      with r StartAwaitMedia have s': "s' = start_failed err ?s0" by simp
      show ?thesis
        using single_flight_tasks [OF s0, of s' StartAwaitClose] start_failed_tasks [of err ?s0]
        unfolding s' by simp
    qed (use r StartAwaitMedia in simp_all)
  next
    case StartAwaitClose
    then have ne: "tasks s ! i \<noteq> PumpAwaitPush" by simp
    note s0 = single_flight_remove [OF assms(1) i ne]
    from r StartAwaitClose have "s' = stopAudioPipeline_end ?s0" by (simp split: if_splits)
    then have "pushingRef s' = pushingRef ?s0" "tasks s' = tasks ?s0"
      by (simp_all add: stopAudioPipeline_end_def)
    then show ?thesis using single_flight_tasks [OF s0, of s' StartAwaitClose] by simp
  next
    case StopAwaitClose
    with mem assms(1) show ?thesis by (simp add: single_flight_def)
  next
    case StopAwaitFinish
    with mem assms(1) show ?thesis by (simp add: single_flight_def)
  qed
qed

lemma single_flight_without_stop:
  "single_flight s \<Longrightarrow> ClickStop \<notin> set es \<Longrightarrow> run es s = Some s' \<Longrightarrow> single_flight s'"
proof (induction es arbitrary: s)
  case Nil
  then show ?case by simp
next
  case (Cons e es)
  from Cons.prems(3) obtain s1 where s1: "step e s = Some s1" and r: "run es s1 = Some s'"
    by (auto split: option.splits)
  from Cons.prems(2) have ne: "e \<noteq> ClickStop" and nes: "ClickStop \<notin> set es" by auto
  from Cons.IH [OF step_single [OF Cons.prems(1) ne s1] nes r] show ?case .
qed

lemma first_session_single_flight:
  "ClickStop \<notin> set es \<Longrightarrow> run es init = Some s \<Longrightarrow> inflight s \<le> 1"
proof -
  assume a: "ClickStop \<notin> set es" and b: "run es init = Some s"
  have "single_flight init" by (simp add: single_flight_def inflight_def init_def)
  from single_flight_without_stop [OF this a b] show ?thesis
    by (simp add: single_flight_def)
qed

section \<open>Executions that leave the intended behaviour\<close>

text \<open>
  C1. Within a first session the pump is single-flight (\<open>first_session_single_flight\<close>),
  but stop clears the flag while a request of the pump may still be outstanding. In the
  execution below the first chunk of session \<open>s1\<close> is still unanswered when the session is
  stopped, finished and a new one started; the second block of the new session finds the
  flag clear and starts a second pump, so two \<open>pushChunk\<close> requests are outstanding at once.
\<close>

theorem restart_overlaps_requests:
  "run (busy_trace @ restart_trace) init = Some overlapped
   \<and> inflight overlapped = 2
   \<and> tasks overlapped = [PumpAwaitPush, PumpAwaitPush]
   \<and> filter is_push (calls overlapped)
       = [ApiPushChunk ''s1'' (replicate 8000 (Num 0)),
          ApiPushChunk ''s2'' (replicate 8000 (Num 0))]"
proof -
  have "run restart_trace busy = Some overlapped"
    by (simp add: restart_trace_def busy_def overlapped_def eval_simps)
  then have "run (busy_trace @ restart_trace) init = Some overlapped"
    by (simp add: run_append run_busy)
  then show ?thesis by (simp add: overlapped_def inflight_def)
qed

text \<open>
  C3. A failed \<open>pushChunk\<close> sets the status to \<open>Error\<close> and ends that pump, and nothing
  else: the recording flag stays set and the capture handler stays installed. In the
  state \<open>failed\<close> a click on start is ignored, since the component still counts as
  recording, and the next two blocks start a pump that sends a further chunk.
\<close>

theorem push_failure_keeps_draining:
  "run (busy_trace @ [Settle 0 (Rejected ''500'')]) init = Some failed
   \<and> status failed = Error \<and> isRecording failed \<and> recordingRef failed
   \<and> handlers failed = [(0, 16000)]
   \<and> step ClickStart failed = Some failed
   \<and> run [Audio 0 block, Audio 0 block] failed = Some resumed
   \<and> filter is_push (calls resumed)
       = [ApiPushChunk ''s1'' (replicate 8000 (Num 0)),
          ApiPushChunk ''s1'' (replicate 8000 (Num 0))]
   \<and> status resumed = Error \<and> inflight resumed = 1"
proof -
  have "run [Settle 0 (Rejected ''500'')] busy = Some failed"
    by (simp add: busy_def failed_def)
  then have a: "run (busy_trace @ [Settle 0 (Rejected ''500'')]) init = Some failed"
    by (simp add: run_append run_busy)
  have b: "run [Audio 0 block, Audio 0 block] failed = Some resumed"
    by (simp add: busy_def failed_def resumed_def eval_simps)
  have c: "step ClickStart failed = Some failed"
    by (simp add: busy_def failed_def handleStart_def)
  show ?thesis using a b c by (simp add: busy_def failed_def resumed_def inflight_def)
qed

end
